theory Spec2Isabelle
  imports Main "HOL-Library.Sublist" "HOL-Library.AList"
begin

section \<open>Python strings\<close>

text \<open>
  A Python \<open>str\<close> is a sequence of Unicode code points; a code point is a natural
  number here, so \<open>length\<close> counts what Python's \<open>len\<close> counts. \<open>str\<close> turns an
  ASCII literal into such a sequence.
\<close>

type_synonym pystr = "nat list"

definition str :: "string \<Rightarrow> pystr" where
  "str s = map of_char s"

text \<open>
  \<open>str.isspace\<close> for one code point: the characters that \<open>str.strip()\<close> removes and
  \<open>str.split()\<close> splits at (U+0009..U+000D, U+001C..U+0020, U+0085, U+00A0, U+1680,
  U+2000..U+200A, U+2028, U+2029, U+202F, U+205F, U+3000).
\<close>

definition isspace :: "nat \<Rightarrow> bool" where
  "isspace c \<longleftrightarrow>
     (9 \<le> c \<and> c \<le> 13) \<or> (28 \<le> c \<and> c \<le> 32) \<or> c = 133 \<or> c = 160 \<or> c = 5760 \<or>
     (8192 \<le> c \<and> c \<le> 8202) \<or> c = 8232 \<or> c = 8233 \<or> c = 8239 \<or> c = 8287 \<or> c = 12288"

text \<open>\<open>s.strip()\<close>: leading and trailing whitespace removed.\<close>

definition py_strip :: "pystr \<Rightarrow> pystr" where
  "py_strip s = rev (dropWhile isspace (rev (dropWhile isspace s)))"

text \<open>
  \<open>s.split()\<close>: the maximal runs of non-whitespace characters, in order. \<open>split_from cur s\<close>
  scans \<open>s\<close> with the word read so far in \<open>cur\<close>.
\<close>

fun split_from :: "pystr \<Rightarrow> pystr \<Rightarrow> pystr list" where
  "split_from cur [] = (if cur = [] then [] else [cur])"
| "split_from cur (c # cs) =
     (if isspace c then (if cur = [] then split_from [] cs else cur # split_from [] cs)
      else split_from (cur @ [c]) cs)"

definition py_split :: "pystr \<Rightarrow> pystr list" where
  "py_split s = split_from [] s"

text \<open>\<open>sep.join(xs)\<close>.\<close>

fun py_join :: "pystr \<Rightarrow> pystr list \<Rightarrow> pystr" where
  "py_join sep [] = []"
| "py_join sep [x] = x"
| "py_join sep (x # y # ys) = x @ sep @ py_join sep (y # ys)"

text \<open>\<open>xs[start:end]\<close> for \<open>0 \<le> start\<close>; \<open>end = None\<close> runs to the end of the list.\<close>

definition py_slice :: "'a list \<Rightarrow> nat \<Rightarrow> nat option \<Rightarrow> 'a list" where
  "py_slice xs start end = (case end of None \<Rightarrow> drop start xs
                             | Some e \<Rightarrow> take (e - start) (drop start xs))"

section \<open>The translation client\<close>

text \<open>
  The backend (\<open>BaseTranslator.translate_text\<close>) is external: it answers a call with a
  string or raises. \<open>translator k text lang\<close> is the outcome of the call number \<open>k\<close>
  (counted from 0 over the whole run) with these arguments, \<open>None\<close> when it raises; any
  behaviour of a backend over one run is such a function. The state records every call
  of \<open>translate_text\<close> (\<open>attempts\<close>) and every call of \<open>TranslationClient.translate\<close>
  (\<open>requests\<close>).
\<close>

type_synonym call_log = "(pystr \<times> pystr) list"

record translation_client =
  translator :: "nat \<Rightarrow> pystr \<Rightarrow> pystr \<Rightarrow> pystr option"
  max_retries :: int

record backend_state =
  attempts :: call_log
  requests :: call_log

text \<open>
  The loop \<open>for attempt in range(self.max_retries)\<close> of \<open>TranslationClient.translate\<close>:
  the first answer is returned; an attempt that raises is logged and, when it was the
  last one, the string \<open>"error"\<close> is returned. When the range is empty the function falls
  off its end and returns Python's \<open>None\<close>, which is the result \<open>None\<close> here.
\<close>

function translate_loop ::
  "translation_client \<Rightarrow> pystr \<Rightarrow> pystr \<Rightarrow> int \<Rightarrow> call_log \<Rightarrow> pystr option \<times> call_log" where
  "translate_loop c text lang attempt lg =
     (if attempt < max_retries c then
        (case translator c (length lg) text lang of
           Some r \<Rightarrow> (Some r, lg @ [(text, lang)])
         | None \<Rightarrow>
             if attempt + 1 = max_retries c then (Some (str ''error''), lg @ [(text, lang)])
             else translate_loop c text lang (attempt + 1) (lg @ [(text, lang)]))
      else (None, lg))"
  by pat_completeness auto
termination
  by (relation "measure (\<lambda>(c, text, lang, attempt, lg). nat (max_retries c - attempt))") auto

definition translate ::
  "translation_client \<Rightarrow> pystr \<Rightarrow> pystr \<Rightarrow> backend_state \<Rightarrow> pystr option \<times> backend_state" where
  "translate c text lang st =
     (case translate_loop c text lang 0 (attempts st) of
        (r, lg) \<Rightarrow> (r, \<lparr>attempts = lg, requests = requests st @ [(text, lang)]\<rparr>))"

section \<open>The content tree\<close>

text \<open>
  An \<open>xml.etree.ElementTree.Element\<close>: its tag (the qualified name, written
  \<open>{namespace}local\<close>), its text (\<open>None\<close> or a string) and its children in document
  order. The pipeline reads and writes nothing else of an element (attributes and tail
  text pass through untouched), and it never changes the shape of the tree.
\<close>

datatype element = Element (tag: pystr) (elem_text: "pystr option") (children: "element list")

text \<open>
  Python hands out references to the elements of one tree and mutates the tree through
  them. A reference is the position of the element: the child indices on the way down
  from the element the search started at. \<open>get\<close> follows a reference, \<open>modify\<close> rewrites
  the element it points to, in place.
\<close>

type_synonym ref = "nat list"

fun get :: "element \<Rightarrow> ref \<Rightarrow> element option" where
  "get e [] = Some e"
| "get e (i # r) = (if i < length (children e) then get (children e ! i) r else None)"

fun modify :: "ref \<Rightarrow> (element \<Rightarrow> element) \<Rightarrow> element \<Rightarrow> element" where
  "modify [] f e = f e"
| "modify (i # r) f e =
     (if i < length (children e)
      then Element (tag e) (elem_text e) ((children e)[i := modify r f (children e ! i)])
      else e)"

text \<open>
  \<open>element.iter()\<close>: the element itself and all its descendants in document order
  (preorder); \<open>iter_refs P\<close> keeps those whose tag satisfies \<open>P\<close>.
\<close>

fun iter_refs :: "(pystr \<Rightarrow> bool) \<Rightarrow> element \<Rightarrow> ref list"
  and iter_refs_list :: "(pystr \<Rightarrow> bool) \<Rightarrow> nat \<Rightarrow> element list \<Rightarrow> ref list" where
  "iter_refs P (Element t x cs) = (if P t then [[]] else []) @ iter_refs_list P 0 cs"
| "iter_refs_list P i [] = []"
| "iter_refs_list P i (c # cs) = map ((#) i) (iter_refs P c) @ iter_refs_list P (Suc i) cs"

text \<open>\<open>element.iter(tag)\<close> and \<open>element.findall('.//tag')\<close> (descendants only).\<close>

definition iter :: "pystr \<Rightarrow> element \<Rightarrow> ref list" where
  "iter tg e = iter_refs (\<lambda>t. t = tg) e"

definition findall :: "pystr \<Rightarrow> element \<Rightarrow> ref list" where
  "findall tg e = iter_refs_list (\<lambda>t. t = tg) 0 (children e)"

text \<open>The text of the element a reference points to.\<close>

definition text_at :: "element \<Rightarrow> ref \<Rightarrow> pystr option" where
  "text_at e r = (case get e r of None \<Rightarrow> None | Some t \<Rightarrow> elem_text t)"

text \<open>\<open>t.text = s\<close> for the element at \<open>r\<close>.\<close>

definition set_text :: "ref \<Rightarrow> pystr \<Rightarrow> element \<Rightarrow> element" where
  "set_text r s e = modify r (\<lambda>t. Element (tag t) (Some s) (children t)) e"

section \<open>Namespaces and tags\<close>

definition ns_w :: pystr where
  "ns_w = str ''http://schemas.openxmlformats.org/wordprocessingml/2006/main''"

definition ns_m :: pystr where
  "ns_m = str ''http://schemas.openxmlformats.org/officeDocument/2006/math''"

definition qname :: "pystr \<Rightarrow> string \<Rightarrow> pystr" where
  "qname ns local = str ''{'' @ ns @ str ''}'' @ str local"

definition w_t :: pystr where "w_t = qname ns_w ''t''"
definition w_p :: pystr where "w_p = qname ns_w ''p''"
definition w_tbl :: pystr where "w_tbl = qname ns_w ''tbl''"
definition w_tr :: pystr where "w_tr = qname ns_w ''tr''"
definition w_tc :: pystr where "w_tc = qname ns_w ''tc''"

section \<open>DocxTranslator: extraction and redistribution\<close>

datatype error = IOError | FormatError | AttributeError

text \<open>\<open>is_math_element\<close>: some element of \<open>element.iter()\<close> has a tag in the math namespace.\<close>

definition is_math_element :: "element \<Rightarrow> bool" where
  "is_math_element element \<longleftrightarrow>
     iter_refs (\<lambda>t. prefix (str ''{'' @ ns_m @ str ''}'') t) element \<noteq> []"

text \<open>
  \<open>extract_text\<close>: empty for a formula; otherwise the texts of the \<open>w:t\<close> elements, those
  that are neither \<open>None\<close> nor empty, concatenated and stripped.
\<close>

definition extract_text :: "element \<Rightarrow> pystr" where
  "extract_text element =
     (if is_math_element element then []
      else py_strip (concat (map (\<lambda>t. case text_at element t of None \<Rightarrow> [] | Some s \<Rightarrow> s)
                                 (iter w_t element))))"

text \<open>
  The loop \<open>for i, t_element in enumerate(text_elements)\<close> of \<open>update_text\<close>, with
  \<open>n = len(text_elements)\<close>.
\<close>

fun assign_words ::
  "pystr list \<Rightarrow> nat \<Rightarrow> nat \<Rightarrow> (nat \<times> ref) list \<Rightarrow> element \<Rightarrow> element" where
  "assign_words words words_per_element n [] element = element"
| "assign_words words words_per_element n ((i, t_element) # rest) element =
     (let start_idx = i * words_per_element;
          end_idx = (if i < n - 1 then Some (start_idx + words_per_element) else None)
      in assign_words words words_per_element n rest
           (if start_idx < length words
            then set_text t_element (py_join (str '' '') (py_slice words start_idx end_idx)) element
            else set_text t_element [] element))"

text \<open>
  \<open>update_text\<close> on a string. The body of the source function after its first line; the
  spec calls it \<open>redistribute\<close>.
\<close>

definition redistribute :: "element \<Rightarrow> pystr \<Rightarrow> element" where
  "redistribute element translated_text =
     (if py_strip translated_text = [] then element
      else case iter w_t element of
             [] \<Rightarrow> element
           | [t] \<Rightarrow> set_text t translated_text element
           | text_elements \<Rightarrow>
               (let words = py_split translated_text;
                    total_words = length words;
                    words_per_element = max 1 (total_words div length text_elements)
                in assign_words words words_per_element (length text_elements)
                     (enumerate 0 text_elements) element))"

text \<open>
  \<open>update_text\<close> as it is called: \<open>translated_text\<close> is whatever \<open>translate\<close> returned.
  On Python's \<open>None\<close> the first line, \<open>translated_text.strip()\<close>, raises AttributeError
  before anything is written.
\<close>

definition update_text :: "element \<Rightarrow> pystr option \<Rightarrow> error + element" where
  "update_text element translated_text =
     (case translated_text of
        None \<Rightarrow> Inl AttributeError
      | Some s \<Rightarrow> Inr (redistribute element s))"

text \<open>The texts of the \<open>w:t\<close> elements of an element, in document order.\<close>

definition leaf_texts :: "element \<Rightarrow> pystr option list" where
  "leaf_texts e = map (text_at e) (iter w_t e)"

section \<open>DocxTranslator: the passes over the document\<close>

text \<open>
  The paragraph loop of \<open>translate_document\<close>,
  \<open>for element in root.findall('.//w:p', self.ns)\<close>: the references are those of all the
  \<open>w:p\<close> descendants of the root, found before the loop starts. The result of
  \<open>translate\<close> goes to \<open>update_text\<close> as it is; an exception of \<open>update_text\<close> leaves the
  loop and the function. A reference that a search returned always points to an element
  (lemma \<open>findall_valid\<close>), so the \<open>None\<close> branch of \<open>get\<close>, here and in the loops below,
  is never taken.
\<close>

fun translate_paragraphs ::
  "translation_client \<Rightarrow> pystr \<Rightarrow> ref list \<Rightarrow> element \<Rightarrow> backend_state
     \<Rightarrow> error + element \<times> backend_state" where
  "translate_paragraphs c target_language [] root st = Inr (root, st)"
| "translate_paragraphs c target_language (p # ps) root st =
     (case get root p of
        None \<Rightarrow> translate_paragraphs c target_language ps root st
      | Some element \<Rightarrow>
          (let text = extract_text element in
           if py_strip text \<noteq> [] then
             (case translate c text target_language st of
                (translated_text, st') \<Rightarrow>
                  (case update_text element translated_text of
                     Inl err \<Rightarrow> Inl err
                   | Inr element' \<Rightarrow>
                       translate_paragraphs c target_language ps
                         (modify p (\<lambda>_. element') root) st'))
           else translate_paragraphs c target_language ps root st))"

text \<open>
  In \<open>process_table\<close>, the loop that builds \<open>cell_text\<close> from the paragraphs of a cell:
  every non-empty extracted text is appended, followed by one space.
\<close>

fun cell_text_of :: "element \<Rightarrow> ref list \<Rightarrow> pystr \<Rightarrow> pystr" where
  "cell_text_of cell [] cell_text = cell_text"
| "cell_text_of cell (p # ps) cell_text =
     (let text = (case get cell p of None \<Rightarrow> [] | Some para \<Rightarrow> extract_text para) in
      if py_strip text \<noteq> [] then cell_text_of cell ps (cell_text @ text @ str '' '')
      else cell_text_of cell ps cell_text)"

text \<open>\<open>for t in para.iter('{...}t'): t.text = ''\<close>, and the loop over \<open>paras[1:]\<close> around it.\<close>

fun clear_texts :: "ref list \<Rightarrow> element \<Rightarrow> element" where
  "clear_texts [] para = para"
| "clear_texts (t # ts) para = clear_texts ts (set_text t [] para)"

fun clear_paragraphs :: "ref list \<Rightarrow> element \<Rightarrow> element" where
  "clear_paragraphs [] cell = cell"
| "clear_paragraphs (p # ps) cell =
     clear_paragraphs ps (modify p (\<lambda>para. clear_texts (iter w_t para) para) cell)"

text \<open>
  The body of the cell loop of \<open>process_table\<close>, inside its \<open>try\<close>. A result of
  \<open>translate\<close> that is \<open>None\<close>, empty or \<open>"error"\<close> only logs a warning. The \<open>except\<close>
  branch logs the exception and goes on with the next cell.
\<close>

definition process_cell ::
  "translation_client \<Rightarrow> pystr \<Rightarrow> element \<Rightarrow> backend_state \<Rightarrow> element \<times> backend_state" where
  "process_cell c target_language cell st =
     (let cell_text = py_strip (cell_text_of cell (findall w_p cell) []) in
      if cell_text \<noteq> [] then
        (case translate c cell_text target_language st of
           (translated_text, st') \<Rightarrow>
             if translated_text \<noteq> None \<and> translated_text \<noteq> Some []
                \<and> translated_text \<noteq> Some (str ''error'')
             then
               (case findall w_p cell of
                  [] \<Rightarrow> (cell, st')
                | p0 # rest \<Rightarrow>
                    (case get cell p0 of
                       None \<Rightarrow> (cell, st')
                     | Some para0 \<Rightarrow>
                         (case update_text para0 translated_text of
                            Inl err \<Rightarrow> (cell, st')
                          | Inr para0' \<Rightarrow>
                              (clear_paragraphs rest (modify p0 (\<lambda>_. para0') cell), st'))))
             else (cell, st'))
      else (cell, st))"

text \<open>
  The loops of \<open>process_table\<close> over \<open>row.findall('.//w:tc')\<close> and
  \<open>table.findall('.//w:tr')\<close>, and the loop of \<open>translate_document\<close> over
  \<open>root.findall('.//w:tbl')\<close>. Each search returns all the descendants with the tag.
\<close>

fun process_cells ::
  "translation_client \<Rightarrow> pystr \<Rightarrow> ref list \<Rightarrow> element \<Rightarrow> backend_state
     \<Rightarrow> element \<times> backend_state" where
  "process_cells c target_language [] row st = (row, st)"
| "process_cells c target_language (p # ps) row st =
     (case get row p of
        None \<Rightarrow> process_cells c target_language ps row st
      | Some cell \<Rightarrow>
          (case process_cell c target_language cell st of
             (cell', st') \<Rightarrow>
               process_cells c target_language ps (modify p (\<lambda>_. cell') row) st'))"

fun process_rows ::
  "translation_client \<Rightarrow> pystr \<Rightarrow> ref list \<Rightarrow> element \<Rightarrow> backend_state
     \<Rightarrow> element \<times> backend_state" where
  "process_rows c target_language [] table st = (table, st)"
| "process_rows c target_language (p # ps) table st =
     (case get table p of
        None \<Rightarrow> process_rows c target_language ps table st
      | Some row \<Rightarrow>
          (case process_cells c target_language (findall w_tc row) row st of
             (row', st') \<Rightarrow>
               process_rows c target_language ps (modify p (\<lambda>_. row') table) st'))"

definition process_table ::
  "translation_client \<Rightarrow> pystr \<Rightarrow> element \<Rightarrow> backend_state \<Rightarrow> element \<times> backend_state" where
  "process_table c target_language table st =
     process_rows c target_language (findall w_tr table) table st"

fun process_tables ::
  "translation_client \<Rightarrow> pystr \<Rightarrow> ref list \<Rightarrow> element \<Rightarrow> backend_state
     \<Rightarrow> element \<times> backend_state" where
  "process_tables c target_language [] root st = (root, st)"
| "process_tables c target_language (p # ps) root st =
     (case get root p of
        None \<Rightarrow> process_tables c target_language ps root st
      | Some table \<Rightarrow>
          (case process_table c target_language table st of
             (table', st') \<Rightarrow>
               process_tables c target_language ps (modify p (\<lambda>_. table') root) st'))"

text \<open>The text that \<open>extract_text\<close> returns for the element at a reference.\<close>

definition extract_text_at :: "element \<Rightarrow> ref \<Rightarrow> pystr" where
  "extract_text_at root p = (case get root p of None \<Rightarrow> [] | Some element \<Rightarrow> extract_text element)"

text \<open>The two passes of \<open>translate_document\<close> over the parsed tree: paragraphs, then tables.\<close>

definition translate_tree ::
  "translation_client \<Rightarrow> pystr \<Rightarrow> element \<Rightarrow> backend_state
     \<Rightarrow> error + element \<times> backend_state" where
  "translate_tree c target_language root st =
     (case translate_paragraphs c target_language (findall w_p root) root st of
        Inl err \<Rightarrow> Inl err
      | Inr (root', st') \<Rightarrow>
          Inr (process_tables c target_language (findall w_tbl root') root' st'))"

section \<open>The requests of a document pass\<close>

text \<open>
  \<open>no_nesting tg e\<close>: among the descendants of \<open>e\<close> with the tag \<open>tg\<close>, none lies inside
  another.
\<close>

definition no_nesting :: "pystr \<Rightarrow> element \<Rightarrow> bool" where
  "no_nesting tg e \<longleftrightarrow>
     (\<forall>p\<in>set (findall tg e). \<forall>q\<in>set (findall tg e). p \<noteq> q \<longrightarrow> \<not> prefix p q)"

text \<open>
  One request for every paragraph of the document whose extracted text is not empty,
  in document order.
\<close>

definition paragraph_requests :: "pystr \<Rightarrow> element \<Rightarrow> call_log" where
  "paragraph_requests lang root =
     map (\<lambda>t. (t, lang))
       (filter (\<lambda>t. py_strip t \<noteq> []) (map (extract_text_at root) (findall w_p root)))"

text \<open>
  The request that \<open>process_table\<close> makes for a cell: the stripped \<open>cell_text\<close>, if it is
  not empty.
\<close>

definition cell_requests :: "pystr \<Rightarrow> element \<Rightarrow> call_log" where
  "cell_requests lang cell =
     (let cell_text = py_strip (cell_text_of cell (findall w_p cell) []) in
      if cell_text \<noteq> [] then [(cell_text, lang)] else [])"

text \<open>
  The requests \<open>R\<close> of the descendants with a tag, one after the other in document
  order; those of the cells of the rows of a table, and those of all the tables.
\<close>

definition requests_below :: "(element \<Rightarrow> call_log) \<Rightarrow> pystr \<Rightarrow> element \<Rightarrow> call_log" where
  "requests_below R tg e =
     concat (map (\<lambda>p. case get e p of None \<Rightarrow> [] | Some x \<Rightarrow> R x) (findall tg e))"

definition table_requests :: "pystr \<Rightarrow> element \<Rightarrow> call_log" where
  "table_requests lang table = requests_below (requests_below (cell_requests lang) w_tc) w_tr table"

definition table_pass_requests :: "pystr \<Rightarrow> element \<Rightarrow> call_log" where
  "table_pass_requests lang root = requests_below (table_requests lang) w_tbl root"

text \<open>
  The common form of the loops \<open>process_cells\<close>, \<open>process_rows\<close> and \<open>process_tables\<close>: the
  elements at the references are rewritten one after the other.
\<close>

fun visit ::
  "(element \<Rightarrow> backend_state \<Rightarrow> element \<times> backend_state) \<Rightarrow> ref list \<Rightarrow> element \<Rightarrow> backend_state
     \<Rightarrow> element \<times> backend_state" where
  "visit f [] e st = (e, st)"
| "visit f (p # ps) e st =
     (case get e p of
        None \<Rightarrow> visit f ps e st
      | Some x \<Rightarrow> (case f x st of (x', st') \<Rightarrow> visit f ps (modify p (\<lambda>_. x') e) st'))"

section \<open>The package and the scratch directory\<close>

text \<open>
  A package is a zip archive: its members in archive order, each a name and its bytes.
  The scratch directory \<open>temp_docx\<close> holds files and directories under their paths
  relative to it, written with \<open>/\<close> (a POSIX file system, which tells upper from lower
  case).
\<close>

type_synonym bytes = "nat list"

type_synonym archive = "(pystr \<times> bytes) list"

record directory =
  files :: "(pystr \<times> bytes) list"
  subdirs :: "pystr list"

text \<open>
  \<open>output_file\<close> is the package at the output path when that path lies outside the
  scratch directory.
\<close>

record filesystem =
  temp_dir :: "directory option"
  output_file :: "archive option"

text \<open>
  What the run meets outside the program: the input file (\<open>None\<close> when it cannot be
  opened as a zip archive), the XML parser (\<open>None\<close> on malformed XML) and serializer of
  \<open>ElementTree\<close>, whether the two writes succeed, and where the output path lies:
  \<open>output_inside = None\<close> when it lies outside the scratch directory,
  \<open>Some (path, content)\<close> when it is the file \<open>path\<close> inside it, \<open>content\<close> being
  the bytes that the zip writer leaves there.
\<close>

record environment =
  input_file :: "archive option"
  parse :: "bytes \<Rightarrow> element option"
  tostring :: "element \<Rightarrow> bytes"
  xml_write_ok :: bool
  zip_write_ok :: bool
  output_inside :: "(pystr \<times> bytes) option"

definition doc_xml_path :: pystr where
  "doc_xml_path = str ''word/document.xml''"

text \<open>\<open>ZipInfo.is_dir\<close>: the member name ends with a slash.\<close>

definition is_dir :: "pystr \<Rightarrow> bool" where
  "is_dir name \<longleftrightarrow> name \<noteq> [] \<and> last name = 47"

text \<open>\<open>s.split('/')\<close>: the parts between the slashes, the empty ones too.\<close>

fun split_at_slash :: "pystr \<Rightarrow> pystr \<Rightarrow> pystr list" where
  "split_at_slash cur [] = [cur]"
| "split_at_slash cur (c # cs) =
     (if c = 47 then cur # split_at_slash [] cs else split_at_slash (cur @ [c]) cs)"

text \<open>
  The path under which \<open>ZipFile.extractall\<close> stores a member: the name without its empty,
  \<open>.\<close> and \<open>..\<close> components, so also without a leading or trailing slash.
\<close>

definition sanitize :: "pystr \<Rightarrow> pystr" where
  "sanitize name =
     py_join (str ''/'')
       (filter (\<lambda>x. x \<noteq> [] \<and> x \<noteq> str ''.'' \<and> x \<noteq> str ''..'') (split_at_slash [] name))"

text \<open>The directories above a path: \<open>a\<close> and \<open>a/b\<close> for \<open>a/b/c\<close>.\<close>

definition parent_dirs :: "pystr \<Rightarrow> pystr list" where
  "parent_dirs path =
     map (\<lambda>n. py_join (str ''/'') (take n (split_at_slash [] path)))
       [1..<length (split_at_slash [] path)]"

text \<open>
  The extraction of one member. The directories above its path are made; this fails
  when one of them is a file. A directory entry then makes its directory, which fails
  when a file has that path; any other member writes its file, replacing an earlier
  file of that path, which fails when the path is empty or is a directory. Every
  failure is an exception that leaves \<open>extractall\<close>.
\<close>

definition extract_member :: "pystr \<times> bytes \<Rightarrow> directory \<Rightarrow> error + directory" where
  "extract_member member d =
     (let path = sanitize (fst member) in
      if list_ex (\<lambda>a. map_of (files d) a \<noteq> None) (parent_dirs path) then Inl IOError
      else
        (let d1 = d\<lparr>subdirs := List.union (parent_dirs path) (subdirs d)\<rparr> in
         if is_dir (fst member) then
           (if path = [] then Inr d1
            else if map_of (files d1) path \<noteq> None then Inl IOError
            else Inr (d1\<lparr>subdirs := List.insert path (subdirs d1)\<rparr>))
         else if path = [] \<or> path \<in> set (subdirs d1) then Inl IOError
         else Inr (d1\<lparr>files := AList.update path (snd member) (files d1)\<rparr>)))"

text \<open>
  \<open>zip_ref.extractall(temp_dir)\<close>: the members in archive order, up to the first that
  fails. The result is the exception, if any, and the directory as it is then.
\<close>

fun extractall :: "archive \<Rightarrow> directory \<Rightarrow> error option \<times> directory" where
  "extractall [] d = (None, d)"
| "extractall (member # members) d =
     (case extract_member member d of
        Inl err \<Rightarrow> (Some err, d)
      | Inr d' \<Rightarrow> extractall members d')"

text \<open>
  The repack loop over \<open>os.walk(temp_dir)\<close>: one member for every file (\<open>filenames\<close>),
  named by its path relative to the scratch directory. Directories are walked, not
  written. The order of \<open>os.walk\<close> is that of the file system; the files are listed here
  in the order they were created.
\<close>

definition repack :: "directory \<Rightarrow> archive" where
  "repack d = files d"

text \<open>
  The \<open>try\<close> block of \<open>translate_document\<close>: unpack, parse \<open>word/document.xml\<close>, translate the
  tree, write it back, repack. It returns the exception it ends with, if any. With the
  output path inside the scratch directory the package is a file of that directory.
\<close>

definition translate_document_body ::
  "environment \<Rightarrow> translation_client \<Rightarrow> pystr \<Rightarrow> directory \<Rightarrow> filesystem \<Rightarrow> backend_state
     \<Rightarrow> error option \<times> filesystem \<times> backend_state" where
  "translate_document_body env c target_language d fs st =
     (case input_file env of
        None \<Rightarrow> (Some IOError, fs, st)
      | Some members \<Rightarrow>
          (case extractall members d of
             (Some err, d1) \<Rightarrow> (Some err, fs\<lparr>temp_dir := Some d1\<rparr>, st)
           | (None, d1) \<Rightarrow>
               (let fs1 = fs\<lparr>temp_dir := Some d1\<rparr> in
                case map_of (files d1) doc_xml_path of
                  None \<Rightarrow> (Some IOError, fs1, st)
                | Some xml \<Rightarrow>
                    (case parse env xml of
                       None \<Rightarrow> (Some FormatError, fs1, st)
                     | Some root \<Rightarrow>
                         (case translate_tree c target_language root st of
                            Inl err \<Rightarrow> (Some err, fs1, st)
                          | Inr (root', st') \<Rightarrow>
                              if \<not> xml_write_ok env then (Some IOError, fs1, st')
                              else
                                (let d2 = d1\<lparr>files :=
                                       AList.update doc_xml_path (tostring env root') (files d1)\<rparr>;
                                     fs2 = fs\<lparr>temp_dir := Some d2\<rparr> in
                                 if \<not> zip_write_ok env then (Some IOError, fs2, st')
                                 else
                                   (case output_inside env of
                                      None \<Rightarrow>
                                        (None, fs2\<lparr>output_file := Some (repack d2)\<rparr>, st')
                                    | Some (path, content) \<Rightarrow>
                                        (None,
                                         fs\<lparr>temp_dir := Some (d2\<lparr>files :=
                                              AList.update path content (files d2)\<rparr>)\<rparr>,
                                         st'))))))))"

text \<open>
  \<open>translate_document\<close>: the scratch directory is removed if it exists and made anew,
  the \<open>try\<close> block runs, and the \<open>finally\<close> clause removes the directory if it exists.
  \<open>shutil.rmtree\<close> and \<open>os.makedirs\<close> on the scratch directory are taken to succeed.
\<close>

definition rmtree_if_exists :: "filesystem \<Rightarrow> filesystem" where
  "rmtree_if_exists fs = (if temp_dir fs \<noteq> None then fs\<lparr>temp_dir := None\<rparr> else fs)"

definition translate_document ::
  "environment \<Rightarrow> translation_client \<Rightarrow> pystr \<Rightarrow> filesystem \<Rightarrow> backend_state
     \<Rightarrow> error option \<times> filesystem \<times> backend_state" where
  "translate_document env c target_language fs st =
     (let fs0 = rmtree_if_exists fs;
          d = \<lparr>files = [], subdirs = []\<rparr>;
          fs1 = fs0\<lparr>temp_dir := Some d\<rparr> in
      case translate_document_body env c target_language d fs1 st of
        (result, fs2, st') \<Rightarrow> (result, rmtree_if_exists fs2, st'))"

text \<open>The leaf texts with \<open>None\<close> read as the empty string.\<close>

definition text_or_empty :: "pystr option \<Rightarrow> pystr" where
  "text_or_empty t = (case t of None \<Rightarrow> [] | Some s \<Rightarrow> s)"

text \<open>
  The words that the loop of \<open>update_text\<close> joins into leaf number \<open>i\<close> of \<open>n\<close>: the slice
  \<open>words[i*k : i*k + k]\<close>, for the last leaf \<open>words[i*k :]\<close>.
\<close>

definition leaf_words :: "pystr list \<Rightarrow> nat \<Rightarrow> nat \<Rightarrow> nat \<Rightarrow> pystr list" where
  "leaf_words words k n i =
     (if i < n - 1 then take k (drop (i * k) words) else drop (i * k) words)"

text \<open>
  The shape of a tree: the tree without its texts. The pipeline only ever assigns texts,
  so the shape, and with it every reference, stays valid.
\<close>

fun shape :: "element \<Rightarrow> element" where
  "shape (Element t x cs) = Element t None (map shape cs)"

section \<open>Example documents\<close>

text \<open>A run with one text leaf, and the paragraph with the leaves \<open>"A "\<close>, \<open>"B "\<close>, \<open>"C"\<close>.\<close>

definition run :: "string \<Rightarrow> element" where
  "run s = Element (qname ns_w ''r'') None [Element w_t (Some (str s)) []]"

definition para3 :: element where
  "para3 = Element w_p None [run ''A '', run ''B '', run ''C'']"

text \<open>
  Documents, tables and cells built from these, clients whose backend always raises,
  echoes its input or answers with a fixed string, a client without attempts, and an
  environment whose parser yields \<open>doc_bonjour\<close>.
\<close>

definition wrap :: "string \<Rightarrow> element list \<Rightarrow> element" where
  "wrap l cs = Element (qname ns_w l) None cs"

definition document :: "element list \<Rightarrow> element" where
  "document body = wrap ''document'' [wrap ''body'' body]"

definition table1 :: "element list \<Rightarrow> element" where
  "table1 paras = Element w_tbl None [Element w_tr None [Element w_tc None paras]]"

definition formula_para :: element where
  "formula_para = Element w_p None [Element (qname ns_m ''oMath'') None [], run ''E'']"

definition doc_bonjour :: element where
  "doc_bonjour = document [Element w_p None [run ''Bonjour'']]"

definition doc_mixed :: element where
  "doc_mixed = document [Element w_p None [run ''Bonjour''], table1 [Element w_p None [run ''Hello'']]]"

definition doc_formula_cell :: element where
  "doc_formula_cell = document [table1 [formula_para, Element w_p None [run ''Hello'']]]"

definition table_empty_first :: element where
  "table_empty_first = table1 [Element w_p None [], Element w_p None [run ''Hello'']]"

definition table_hello_world :: element where
  "table_hello_world = table1 [Element w_p None [run ''Hello ''], Element w_p None [run ''World'']]"

definition st0 :: backend_state where
  "st0 = \<lparr>attempts = [], requests = []\<rparr>"

definition failing_client :: translation_client where
  "failing_client = \<lparr>translator = (\<lambda>k t l. None), max_retries = 3\<rparr>"

definition echo_client :: translation_client where
  "echo_client = \<lparr>translator = (\<lambda>k t l. Some t), max_retries = 3\<rparr>"

definition fixed_client :: "string \<Rightarrow> translation_client" where
  "fixed_client s = \<lparr>translator = (\<lambda>k t l. Some (str s)), max_retries = 3\<rparr>"

definition no_retry_client :: translation_client where
  "no_retry_client = \<lparr>translator = (\<lambda>k t l. Some t), max_retries = 0\<rparr>"

text \<open>What a pass left behind: the leaf texts, or the requests made.\<close>

definition leaf_texts_after :: "error + element \<times> backend_state \<Rightarrow> error + pystr option list" where
  "leaf_texts_after res = (case res of Inl err \<Rightarrow> Inl err | Inr (root, st) \<Rightarrow> Inr (leaf_texts root))"

definition requests_after :: "error + element \<times> backend_state \<Rightarrow> error + call_log" where
  "requests_after res = (case res of Inl err \<Rightarrow> Inl err | Inr (root, st) \<Rightarrow> Inr (requests st))"

definition env_of :: "archive \<Rightarrow> environment" where
  "env_of members = \<lparr>input_file = Some members, parse = (\<lambda>xml. Some doc_bonjour),
     tostring = (\<lambda>root. [3]), xml_write_ok = True, zip_write_ok = True,
     output_inside = None\<rparr>"

definition plain_members :: archive where
  "plain_members = [(str ''[Content_Types].xml'', [1]), (doc_xml_path, [2])]"

definition odd_members :: archive where
  "odd_members = [(str ''word/'', []), (str ''../x.txt'', [1]), (doc_xml_path, [2])]"

definition clash_members :: archive where
  "clash_members = [(str ''a'', [1]), (str ''a/b'', [2]), (doc_xml_path, [3])]"

definition no_retry_failing_client :: translation_client where
  "no_retry_failing_client = \<lparr>translator = (\<lambda>k t l. None), max_retries = 0\<rparr>"

definition fs_stale :: filesystem where
  "fs_stale = \<lparr>temp_dir = Some \<lparr>files = [(str ''old.xml'', [9])], subdirs = []\<rparr>, output_file = None\<rparr>"

section \<open>Properties of the client\<close>

lemma translate_loop_Some:
  "attempt < max_retries c \<Longrightarrow> \<exists>s. fst (translate_loop c src lang attempt lg) = Some s"
proof (induction c src lang attempt lg rule: translate_loop.induct)
  case (1 c src lang attempt lg)
  show ?case
  proof (cases "translator c (length lg) src lang")
    case (Some r)
    with "1.prems" show ?thesis by simp
  next
    case None
    show ?thesis
    proof (cases "attempt + 1 = max_retries c")
      case True
      with None "1.prems" show ?thesis by simp
    next
      case False
      with "1.prems" have "attempt + 1 < max_retries c" by simp
      with "1.IH" [OF "1.prems" None False] None False "1.prems" show ?thesis by simp
    qed
  qed
qed

lemma translate_loop_exhausted:
  "max_retries c \<le> attempt \<Longrightarrow> translate_loop c src lang attempt lg = (None, lg)"
  by simp

declare translate_loop.simps [simp del]

text \<open>
  Claim C10. \<open>TranslationClient.translate\<close> returns a string exactly when
  \<open>max_retries \<ge> 1\<close>: with at least one attempt allowed it returns a string for every
  input and every backend; with \<open>max_retries = 0\<close> (or below) the loop body never runs,
  no attempt is made and the result is \<open>None\<close>.
\<close>

theorem translate_returns_string_iff_retries:
  "(1 \<le> max_retries c \<longrightarrow> (\<exists>s. fst (translate c src lang st) = Some s)) \<and>
   (max_retries c \<le> 0 \<longrightarrow>
      fst (translate c src lang st) = None \<and>
      attempts (snd (translate c src lang st)) = attempts st)"
proof (intro conjI impI)
  assume "1 \<le> max_retries c"
  then have "0 < max_retries c" by simp
  from translate_loop_Some [OF this, of src lang "attempts st"]
  show "\<exists>s. fst (translate c src lang st) = Some s"
    by (auto simp: translate_def split: prod.splits)
next
  assume "max_retries c \<le> 0"
  then have "translate_loop c src lang 0 (attempts st) = (None, attempts st)"
    by (rule translate_loop_exhausted)
  then show "fst (translate c src lang st) = None"
    and "attempts (snd (translate c src lang st)) = attempts st"
    by (simp_all add: translate_def)
qed

text \<open>
  Claim C10 on a backend that always raises with three attempts allowed, and on a
  working backend with none allowed.
\<close>

theorem translate_returns_string_iff_retries_witness:
  "(1::int) \<le> 3 \<and>
   (\<exists>s. fst (translate \<lparr>translator = (\<lambda>k t l. None), max_retries = 3\<rparr>
              (str ''Bonjour'') (str ''English'') \<lparr>attempts = [], requests = []\<rparr>) = Some s) \<and>
   (0::int) \<le> 0 \<and>
   fst (translate \<lparr>translator = (\<lambda>k t l. Some t), max_retries = 0\<rparr>
          (str ''Bonjour'') (str ''English'') \<lparr>attempts = [], requests = []\<rparr>) = None \<and>
   attempts (snd (translate \<lparr>translator = (\<lambda>k t l. Some t), max_retries = 0\<rparr>
          (str ''Bonjour'') (str ''English'') \<lparr>attempts = [], requests = []\<rparr>)) = []"
  using translate_returns_string_iff_retries
          [of "\<lparr>translator = (\<lambda>k t l. None), max_retries = 3\<rparr>"
              "str ''Bonjour''" "str ''English''" "\<lparr>attempts = [], requests = []\<rparr>"]
        translate_returns_string_iff_retries
          [of "\<lparr>translator = (\<lambda>k t l. Some t), max_retries = 0\<rparr>"
              "str ''Bonjour''" "str ''English''" "\<lparr>attempts = [], requests = []\<rparr>"]
  by simp

section \<open>Strings: splitting and joining\<close>

lemma split_from_no_space:
  "\<forall>c\<in>set w. \<not> isspace c \<Longrightarrow> split_from cur w = (if cur @ w = [] then [] else [cur @ w])"
  by (induction w arbitrary: cur) simp_all

lemma split_from_at_space:
  "isspace c \<Longrightarrow> split_from cur (a @ c # b) = split_from cur a @ split_from [] b"
  by (induction a arbitrary: cur) simp_all

lemma split_from_words:
  "w \<in> set (split_from cur s) \<Longrightarrow> \<forall>c\<in>set cur. \<not> isspace c \<Longrightarrow>
     w \<noteq> [] \<and> (\<forall>c\<in>set w. \<not> isspace c)"
proof (induction s arbitrary: cur)
  case Nil
  then show ?case by (simp split: if_splits)
next
  case (Cons a s)
  show ?case
  proof (cases "isspace a")
    case True
    with Cons.prems have "w = cur \<and> cur \<noteq> [] \<or> w \<in> set (split_from [] s)"
      by (simp split: if_splits)
    then show ?thesis
    proof
      assume "w = cur \<and> cur \<noteq> []"
      with Cons.prems(2) show ?thesis by simp
    next
      assume "w \<in> set (split_from [] s)"
      then show ?thesis using Cons.IH [of "[]"] by simp
    qed
  next
    case False
    with Cons.prems have "w \<in> set (split_from (cur @ [a]) s)" by simp
    moreover from False Cons.prems(2) have "\<forall>c\<in>set (cur @ [a]). \<not> isspace c" by simp
    ultimately show ?thesis by (rule Cons.IH)
  qed
qed

lemma py_split_word:
  "w \<in> set (py_split s) \<Longrightarrow> py_split w = [w]"
  using split_from_words [of w "[]" s] by (simp add: py_split_def split_from_no_space)

lemma isspace_32: "isspace 32"
  by (simp add: isspace_def)

lemma str_space: "str '' '' = [32]"
  by (simp add: str_def)

lemma split_from_leading: "split_from [] (dropWhile isspace s) = split_from [] s"
  by (induction s) simp_all

lemma split_from_spaces: "\<forall>c\<in>set t. isspace c \<Longrightarrow> split_from cur t = split_from cur []"
  by (induction t arbitrary: cur) simp_all

lemma split_from_trailing: "\<forall>c\<in>set t. isspace c \<Longrightarrow> split_from cur (s @ t) = split_from cur s"
proof (induction s arbitrary: cur)
  case Nil
  then show ?case using split_from_spaces by simp
next
  case (Cons a s) then show ?case by simp
qed


lemma py_split_join:
  "py_split (py_join (str '' '') xs) = concat (map py_split xs)"
proof (induction xs)
  case Nil
  show ?case by (simp add: py_split_def)
next
  case (Cons x xs)
  show ?case
  proof (cases xs)
    case Nil
    then show ?thesis by simp
  next
    case (Cons y ys)
    have "py_split (x @ 32 # py_join [32] (y # ys)) = py_split x @ py_split (py_join [32] (y # ys))"
      unfolding py_split_def by (rule split_from_at_space [OF isspace_32])
    with Cons Cons.IH show ?thesis by (simp add: str_space)
  qed
qed

lemma py_split_strip: "py_split (py_strip s) = py_split s"
proof -
  let ?d = "dropWhile isspace s"
  let ?t = "rev (takeWhile isspace (rev ?d))"
  have "rev (dropWhile isspace (rev ?d)) @ rev (takeWhile isspace (rev ?d)) = rev (rev ?d)"
    by (simp only: rev_append [symmetric] takeWhile_dropWhile_id)
  then have d: "?d = py_strip s @ ?t"
    by (simp add: py_strip_def)
  have "\<forall>c\<in>set ?t. isspace c"
    by (auto dest: set_takeWhileD)
  then have "split_from [] (py_strip s @ ?t) = split_from [] (py_strip s)"
    by (rule split_from_trailing)
  with d have "split_from [] ?d = split_from [] (py_strip s)"
    by simp
  then show ?thesis by (simp add: py_split_def split_from_leading)
qed

lemma py_strip_empty_split: "py_strip s = [] \<Longrightarrow> py_split s = []"
  using py_split_strip [of s] by (simp add: py_split_def)

lemma concat_chunks:
  "concat (map (\<lambda>i. take k (drop (i * k) ws)) [0..<m]) = take (m * k) ws"
proof (induction m)
  case 0 then show ?case by simp
next
  case (Suc m)
  have "take (m * k + k) ws = take (m * k) ws @ take k (drop (m * k) ws)"
    by (rule take_add)
  with Suc show ?case by (simp add: add.commute)
qed

section \<open>References into the tree\<close>

lemma iter_refs_unfold:
  "iter_refs P e = (if P (tag e) then [[]] else []) @ iter_refs_list P 0 (children e)"
  by (cases e) simp

lemma shape_sel [simp]: "tag (shape e) = tag e" "children (shape e) = map shape (children e)"
  by (cases e, simp)+

lemma iter_refs_shape:
  "iter_refs P (shape e) = iter_refs P e"
  "iter_refs_list P i (map shape cs) = iter_refs_list P i cs"
  by (induction P e and P i cs rule: iter_refs_iter_refs_list.induct) simp_all

lemma iter_refs_cong_shape: "shape e = shape e' \<Longrightarrow> iter_refs P e = iter_refs P e'"
  by (metis iter_refs_shape(1))

lemma get_shape: "get (shape e) r = map_option shape (get e r)"
  by (induction r arbitrary: e) simp_all

lemma shape_modify:
  "(\<And>x. shape (f x) = shape x) \<Longrightarrow> shape (modify r f e) = shape e"
proof (induction r arbitrary: e)
  case Nil
  then show ?case by simp
next
  case (Cons i r)
  show ?case
  proof (cases e)
    case (Element t x cs)
    show ?thesis
    proof (cases "i < length cs")
      case True
      have "map shape (cs[i := modify r f (cs ! i)]) = (map shape cs)[i := shape (modify r f (cs ! i))]"
        by (rule map_update)
      also have "\<dots> = (map shape cs)[i := shape (cs ! i)]"
        using Cons.IH [OF Cons.prems] by simp
      also have "\<dots> = map shape cs"
        using True by (simp add: map_update [symmetric])
      finally show ?thesis using Element True by simp
    next
      case False
      with Element show ?thesis by simp
    qed
  qed
qed

lemma shape_set_text: "shape (set_text r s e) = shape e"
  unfolding set_text_def by (rule shape_modify) (case_tac x, simp)

lemma text_at_set_text:
  "get e r \<noteq> None \<Longrightarrow> text_at (set_text r s e) r' = (if r' = r then Some s else text_at e r')"
proof (induction r arbitrary: e r')
  case Nil
  show ?case by (cases r') (simp_all add: text_at_def set_text_def)
next
  case (Cons i r)
  from Cons.prems have i: "i < length (children e)" and g: "get (children e ! i) r \<noteq> None"
    by (simp_all split: if_splits)
  show ?case
  proof (cases r')
    case Nil
    with i show ?thesis by (simp add: text_at_def set_text_def)
  next
    case (Cons j r'')
    show ?thesis
    proof (cases "j = i")
      case True
      with Cons i Cons.IH [OF g, of r''] show ?thesis
        by (simp add: text_at_def set_text_def)
    next
      case False
      with Cons i show ?thesis
        by (simp add: text_at_def set_text_def)
    qed
  qed
qed

lemma get_valid_shape: "shape e = shape e' \<Longrightarrow> get e r \<noteq> None \<Longrightarrow> get e' r \<noteq> None"
  by (metis get_shape option.map_disc_iff)

lemma get_set_text_valid: "get e r' \<noteq> None \<Longrightarrow> get (set_text r s e) r' \<noteq> None"
  using get_valid_shape [OF shape_set_text [symmetric]] .

lemma iter_refs_list_heads:
  "r \<in> set (iter_refs_list P i cs) \<Longrightarrow>
     \<exists>j r'. r = (i + j) # r' \<and> j < length cs \<and> r' \<in> set (iter_refs P (cs ! j))"
proof (induction cs arbitrary: i)
  case Nil
  then show ?case by simp
next
  case (Cons c cs)
  from Cons.prems consider "r \<in> (#) i ` set (iter_refs P c)" | "r \<in> set (iter_refs_list P (Suc i) cs)"
    by auto
  then show ?case
  proof cases
    case 1
    then obtain r' where "r = i # r'" "r' \<in> set (iter_refs P c)" by auto
    then have "r = (i + 0) # r' \<and> 0 < length (c # cs) \<and> r' \<in> set (iter_refs P ((c # cs) ! 0))"
      by simp
    then show ?thesis by blast
  next
    case 2
    from Cons.IH [OF this] obtain j r' where
      "r = (Suc i + j) # r'" "j < length cs" "r' \<in> set (iter_refs P (cs ! j))" by blast
    then have "r = (i + Suc j) # r' \<and> Suc j < length (c # cs) \<and> r' \<in> set (iter_refs P ((c # cs) ! Suc j))"
      by simp
    then show ?thesis by blast
  qed
qed

lemma iter_refs_valid:
  "r \<in> set (iter_refs P e) \<Longrightarrow> get e r \<noteq> None"
proof (induction r arbitrary: e)
  case Nil
  then show ?case by simp
next
  case (Cons i r)
  from Cons.prems have "i # r \<in> set (iter_refs_list P 0 (children e))"
    by (auto simp: iter_refs_unfold [of P e] split: if_splits)
  from iter_refs_list_heads [OF this]
  have "i < length (children e)" "r \<in> set (iter_refs P (children e ! i))" by auto
  with Cons.IH show ?case by simp
qed

lemma findall_valid:
  "r \<in> set (findall tg e) \<Longrightarrow> get e r \<noteq> None"
proof -
  assume "r \<in> set (findall tg e)"
  then have "r \<in> set (iter_refs (\<lambda>t. t = tg) e)"
    by (simp add: findall_def iter_refs_unfold [of _ e])
  then show ?thesis by (rule iter_refs_valid)
qed

lemma iter_refs_distinct:
  "distinct (iter_refs P e)"
  "distinct (iter_refs_list P i cs)"
proof (induction P e and P i cs rule: iter_refs_iter_refs_list.induct)
  case (1 P t x cs)
  have "[] \<notin> set (iter_refs_list P 0 cs)"
    using iter_refs_list_heads [of "[]" P 0 cs] by auto
  with 1 show ?case by simp
next
  case (2 P i)
  show ?case by simp
next
  case (3 P i c cs)
  have "set (map ((#) i) (iter_refs P c)) \<inter> set (iter_refs_list P (Suc i) cs) = {}"
  proof -
    have "\<And>r. r \<in> set (iter_refs_list P (Suc i) cs) \<Longrightarrow> r \<notin> (#) i ` set (iter_refs P c)"
    proof
      fix r assume a: "r \<in> set (iter_refs_list P (Suc i) cs)" and b: "r \<in> (#) i ` set (iter_refs P c)"
      from iter_refs_list_heads [OF a] obtain j r' where "r = (Suc i + j) # r'" by blast
      with b show False by auto
    qed
    then show ?thesis by auto
  qed
  with 3 show ?case by (simp add: distinct_map)
qed

lemma assign_words_Cons:
  "assign_words words k n ((i, t) # ps) e =
     assign_words words k n ps (set_text t (py_join (str '' '') (leaf_words words k n i)) e)"
  by (simp add: Let_def leaf_words_def py_slice_def)

lemma assign_words_shape: "shape (assign_words words k n ps e) = shape e"
proof (induction ps arbitrary: e)
  case Nil
  show ?case by simp
next
  case (Cons p ps)
  obtain i t where p: "p = (i, t)" by (cases p)
  show ?case unfolding p assign_words_Cons by (simp add: Cons.IH shape_set_text)
qed

lemma assign_words_other:
  "r \<notin> snd ` set ps \<Longrightarrow> \<forall>p\<in>set ps. get e (snd p) \<noteq> None \<Longrightarrow>
     text_at (assign_words words k n ps e) r = text_at e r"
proof (induction ps arbitrary: e)
  case Nil
  then show ?case by simp
next
  case (Cons p ps)
  obtain i t where p: "p = (i, t)" by (cases p)
  let ?e = "set_text t (py_join (str '' '') (leaf_words words k n i)) e"
  have step: "assign_words words k n (p # ps) e = assign_words words k n ps ?e"
    unfolding p by (rule assign_words_Cons)
  from Cons.prems p have t: "get e t \<noteq> None" and neq: "r \<noteq> t" by auto
  have "\<forall>p\<in>set ps. get ?e (snd p) \<noteq> None"
    using Cons.prems(2) by (simp add: get_set_text_valid)
  moreover from Cons.prems(1) have "r \<notin> snd ` set ps" by simp
  ultimately have "text_at (assign_words words k n ps ?e) r = text_at ?e r"
    by (rule Cons.IH [rotated])
  with step t neq show ?case by (simp add: text_at_set_text)
qed

lemma assign_words_at:
  "(i, t) \<in> set ps \<Longrightarrow> distinct (map snd ps) \<Longrightarrow> \<forall>p\<in>set ps. get e (snd p) \<noteq> None \<Longrightarrow>
     text_at (assign_words words k n ps e) t = Some (py_join (str '' '') (leaf_words words k n i))"
proof (induction ps arbitrary: e)
  case Nil
  then show ?case by simp
next
  case (Cons p ps)
  obtain j u where p: "p = (j, u)" by (cases p)
  let ?e = "set_text u (py_join (str '' '') (leaf_words words k n j)) e"
  have step: "assign_words words k n (p # ps) e = assign_words words k n ps ?e"
    unfolding p by (rule assign_words_Cons)
  have valid: "\<forall>p\<in>set ps. get ?e (snd p) \<noteq> None"
    using Cons.prems(3) by (simp add: get_set_text_valid)
  from Cons.prems(2) have d: "distinct (map snd ps)" and u: "u \<notin> snd ` set ps"
    by (simp_all add: p)
  from Cons.prems(3) have gu: "get e u \<noteq> None" by (simp add: p)
  show ?case
  proof (cases "(i, t) \<in> set ps")
    case True
    from Cons.IH [OF True d valid] step show ?thesis by simp
  next
    case False
    with Cons.prems(1) p have eq: "i = j" "t = u" by auto
    have "text_at (assign_words words k n ps ?e) u = text_at ?e u"
      using u valid by (rule assign_words_other)
    with step eq gu show ?thesis by (simp add: text_at_set_text)
  qed
qed

section \<open>Redistribution over several leaves\<close>

lemmas tag_defs = w_t_def w_p_def w_tbl_def w_tr_def w_tc_def

lemma str_inject [simp]: "str a = str b \<longleftrightarrow> a = b"
proof -
  have "inj (of_char :: char \<Rightarrow> nat)" by (simp add: inj_on_def)
  then show ?thesis by (simp add: str_def)
qed

lemma qname_inject [simp]: "qname ns a = qname ns b \<longleftrightarrow> a = b"
  by (simp add: qname_def)

lemma math_prefix_m [simp]: "prefix (str ''{'' @ ns_m @ str ''}'') (qname ns_m l)"
  by (simp add: qname_def)

lemma ns_differ: "\<not> prefix (ns_m @ a) (ns_w @ b)"
  by (simp add: ns_m_def ns_w_def str_def)

lemma math_prefix_w [simp]: "\<not> prefix (str ''{'' @ ns_m @ str ''}'') (qname ns_w l)"
  using ns_differ by (simp add: qname_def)


lemma redistribute_multi:
  assumes ne: "py_strip tt \<noteq> []" and n: "2 \<le> length (iter w_t e)"
  shows "iter w_t (redistribute e tt) = iter w_t e"
    and "leaf_texts (redistribute e tt) =
           map (\<lambda>i. Some (py_join (str '' '')
                  (leaf_words (py_split tt)
                     (max 1 (length (py_split tt) div length (iter w_t e)))
                     (length (iter w_t e)) i)))
               [0..<length (iter w_t e)]"
proof -
  let ?refs = "iter w_t e"
  let ?N = "length ?refs"
  let ?words = "py_split tt"
  let ?k = "max 1 (length ?words div ?N)"
  let ?e' = "assign_words ?words ?k ?N (enumerate 0 ?refs) e"
  from n obtain a b rest where refs: "?refs = a # b # rest"
    by (cases ?refs; cases "tl ?refs") auto
  have red: "redistribute e tt = ?e'"
    using ne by (simp add: redistribute_def refs Let_def)
  have "shape ?e' = shape e" by (rule assign_words_shape)
  then have it: "iter w_t ?e' = ?refs"
    unfolding iter_def by (rule iter_refs_cong_shape)
  with red show "iter w_t (redistribute e tt) = iter w_t e" by simp
  have d: "distinct (map snd (enumerate 0 ?refs))"
    by (simp add: iter_def iter_refs_distinct)
  have v: "\<forall>p\<in>set (enumerate 0 ?refs). get e (snd p) \<noteq> None"
  proof
    fix p assume "p \<in> set (enumerate 0 ?refs)"
    then have "(fst p, snd p) \<in> set (zip [0..<0 + ?N] ?refs)"
      by (simp add: enumerate_eq_zip)
    then have "snd p \<in> set ?refs" by (rule set_zip_rightD)
    then show "get e (snd p) \<noteq> None" unfolding iter_def by (rule iter_refs_valid)
  qed
  have "\<And>i. i < ?N \<Longrightarrow> text_at ?e' (?refs ! i) =
      Some (py_join (str '' '') (leaf_words ?words ?k ?N i))"
  proof -
    fix i assume "i < ?N"
    then have "(i, ?refs ! i) \<in> set (enumerate 0 ?refs)"
      by (simp add: in_set_enumerate_eq)
    from assign_words_at [OF this d v]
    show "text_at ?e' (?refs ! i) = Some (py_join (str '' '') (leaf_words ?words ?k ?N i))" .
  qed
  then have "map (text_at ?e') ?refs =
      map (\<lambda>i. Some (py_join (str '' '') (leaf_words ?words ?k ?N i))) [0..<?N]"
    by (intro nth_equalityI) simp_all
  with red it show "leaf_texts (redistribute e tt) =
      map (\<lambda>i. Some (py_join (str '' '') (leaf_words ?words ?k ?N i))) [0..<?N]"
    by (simp add: leaf_texts_def)
qed

text \<open>
  Claim C4. When the stripped translated text is not empty and the element has
  \<open>N \<ge> 2\<close> text leaves, \<open>update_text\<close> succeeds, keeps the leaves, and with
  \<open>words\<close> the whitespace split of the translated text, \<open>W\<close> their number and
  \<open>k = max 1 (W div N)\<close>: leaf \<open>i < N - 1\<close> holds \<open>words[i*k : (i+1)*k]\<close> joined by single
  spaces, the last leaf holds all the words from index \<open>(N-1)*k\<close> on, and a leaf whose
  start index is at or beyond \<open>W\<close> holds the empty string.
\<close>

theorem update_text_multi_leaf:
  assumes "py_strip translated_text \<noteq> []"
    and "N = length (iter w_t element)" and "2 \<le> N"
    and "words = py_split translated_text" and "W = length words"
    and "k = max 1 (W div N)"
  shows "\<exists>e'. update_text element (Some translated_text) = Inr e' \<and>
           iter w_t e' = iter w_t element \<and>
           length (leaf_texts e') = N \<and>
           (\<forall>i<N. (i < N - 1 \<longrightarrow>
                      leaf_texts e' ! i =
                        Some (py_join (str '' '') (take k (drop (i * k) words)))) \<and>
                   (i = N - 1 \<longrightarrow>
                      leaf_texts e' ! i = Some (py_join (str '' '') (drop (i * k) words))) \<and>
                   (W \<le> i * k \<longrightarrow> leaf_texts e' ! i = Some []))"
proof -
  let ?e' = "redistribute element translated_text"
  from assms(1,3) have n: "2 \<le> length (iter w_t element)" by (simp add: assms(2))
  note lt = redistribute_multi(2) [OF assms(1) n, folded assms(2), folded assms(4), folded assms(5), folded assms(6)]
  have "update_text element (Some translated_text) = Inr ?e'"
    by (simp add: update_text_def)
  moreover have "iter w_t ?e' = iter w_t element"
    by (rule redistribute_multi(1) [OF assms(1) n])
  moreover have "length (leaf_texts ?e') = N"
    by (simp add: lt)
  moreover have "\<forall>i<N. (i < N - 1 \<longrightarrow>
                      leaf_texts ?e' ! i =
                        Some (py_join (str '' '') (take k (drop (i * k) words)))) \<and>
                   (i = N - 1 \<longrightarrow>
                      leaf_texts ?e' ! i = Some (py_join (str '' '') (drop (i * k) words))) \<and>
                   (W \<le> i * k \<longrightarrow> leaf_texts ?e' ! i = Some [])"
    by (simp add: lt leaf_words_def assms(5))
  ultimately show ?thesis by blast
qed

lemma concat_split_words:
  "\<forall>w\<in>set xs. py_split w = [w] \<Longrightarrow> concat (map py_split xs) = xs"
  by (induction xs) simp_all

lemma leaf_words_subset: "set (leaf_words words k n i) \<subseteq> set words"
proof -
  have "set (take k (drop (i * k) words)) \<subseteq> set words"
    by (meson set_take_subset set_drop_subset subset_trans)
  moreover have "set (drop (i * k) words) \<subseteq> set words"
    by (rule set_drop_subset)
  ultimately show ?thesis by (simp add: leaf_words_def)
qed

lemma split_join_leaf_words:
  "py_split (py_join (str '' '') (leaf_words (py_split s) k n i)) = leaf_words (py_split s) k n i"
proof -
  have "\<forall>w\<in>set (leaf_words (py_split s) k n i). py_split w = [w]"
    using leaf_words_subset [of "py_split s" k n i] py_split_word [of _ s] by blast
  then show ?thesis by (simp add: py_split_join concat_split_words)
qed

lemma concat_leaf_words:
  assumes "0 < n"
  shows "concat (map (leaf_words words k n) [0..<n]) = words"
proof -
  from assms obtain m where n: "n = Suc m" by (cases n) auto
  have "map (leaf_words words k (Suc m)) [0..<m] = map (\<lambda>i. take k (drop (i * k) words)) [0..<m]"
    by (simp add: leaf_words_def)
  then have "concat (map (leaf_words words k (Suc m)) [0..<m]) = take (m * k) words"
    by (simp only: concat_chunks)
  moreover have "leaf_words words k (Suc m) m = drop (m * k) words"
    by (simp add: leaf_words_def)
  ultimately show ?thesis by (simp add: n)
qed

text \<open>
  Claim C5. For an element with at least two text leaves and a translated text with at
  least one word, the leaf texts after \<open>update_text\<close>, joined by single spaces and
  stripped, split into exactly the words of the translated text, in the same order:
  no word is lost, duplicated or moved.
\<close>

theorem update_text_word_conservation:
  assumes "2 \<le> length (iter w_t element)" and "py_split translated_text \<noteq> []"
  shows "\<exists>e'. update_text element (Some translated_text) = Inr e' \<and>
           length (leaf_texts e') = length (iter w_t element) \<and>
           py_split (py_strip (py_join (str '' '') (map text_or_empty (leaf_texts e'))))
             = py_split translated_text"
proof -
  let ?e' = "redistribute element translated_text"
  let ?N = "length (iter w_t element)"
  let ?ws = "py_split translated_text"
  let ?k = "max 1 (length ?ws div ?N)"
  from assms(2) have ne: "py_strip translated_text \<noteq> []"
    using py_strip_empty_split by blast
  note lt = redistribute_multi(2) [OF ne assms(1)]
  have texts: "map text_or_empty (leaf_texts ?e') =
      map (\<lambda>i. py_join (str '' '') (leaf_words ?ws ?k ?N i)) [0..<?N]"
    by (simp add: lt text_or_empty_def)
  have "py_split (py_strip (py_join (str '' '') (map text_or_empty (leaf_texts ?e'))))
      = concat (map py_split (map text_or_empty (leaf_texts ?e')))"
    by (simp only: py_split_strip py_split_join)
  also have "\<dots> = concat (map (leaf_words ?ws ?k ?N) [0..<?N])"
    by (simp add: texts split_join_leaf_words comp_def)
  also have "\<dots> = ?ws"
    using assms(1) by (intro concat_leaf_words) auto
  finally have "py_split (py_strip (py_join (str '' '') (map text_or_empty (leaf_texts ?e')))) = ?ws" .
  moreover have "update_text element (Some translated_text) = Inr ?e'"
    by (simp add: update_text_def)
  moreover have "length (leaf_texts ?e') = ?N" by (simp add: lt)
  ultimately show ?thesis by blast
qed

lemma split_XYZW: "py_split (str ''X Y Z W'') = [str ''X'', str ''Y'', str ''Z'', str ''W'']"
  by (simp add: py_split_def str_def isspace_def)

lemma iter_para3: "iter w_t para3 = [[0, 0], [1, 0], [2, 0]]"
  by (simp add: iter_def para3_def run_def tag_defs)

text \<open>
  The scenario of C4: three leaves and the translated text \<open>"X Y Z W"\<close> give the
  leaves \<open>"X"\<close>, \<open>"Y"\<close> and \<open>"Z W"\<close>.
\<close>

theorem update_text_multi_leaf_witness:
  "py_strip (str ''X Y Z W'') \<noteq> [] \<and> 2 \<le> length (iter w_t para3) \<and>
   (\<exists>e'. update_text para3 (Some (str ''X Y Z W'')) = Inr e' \<and>
         leaf_texts e' = [Some (str ''X''), Some (str ''Y''), Some (str ''Z W'')])"
proof -
  have h1: "py_strip (str ''X Y Z W'') \<noteq> []"
    by (simp add: py_strip_def str_def isspace_def)
  have h2: "(2::nat) \<le> 3" by simp
  have n: "3 = length (iter w_t para3)" by (simp add: iter_para3)
  have w: "[str ''X'', str ''Y'', str ''Z'', str ''W''] = py_split (str ''X Y Z W'')"
    by (simp add: split_XYZW)
  have l: "4 = length [str ''X'', str ''Y'', str ''Z'', str ''W'']" by simp
  have k: "(1::nat) = max 1 (4 div 3)" by simp
  from update_text_multi_leaf [OF h1 n h2 w l k]
  obtain e' where e': "update_text para3 (Some (str ''X Y Z W'')) = Inr e'"
    and len: "length (leaf_texts e') = 3"
    and all: "\<forall>i<3. (i < 3 - 1 \<longrightarrow> leaf_texts e' ! i =
                 Some (py_join (str '' '') (take 1 (drop (i * 1) [str ''X'', str ''Y'', str ''Z'', str ''W''])))) \<and>
               (i = 3 - 1 \<longrightarrow> leaf_texts e' ! i =
                 Some (py_join (str '' '') (drop (i * 1) [str ''X'', str ''Y'', str ''Z'', str ''W'']))) \<and>
               (4 \<le> i * 1 \<longrightarrow> leaf_texts e' ! i = Some [])"
    by blast
  from all [rule_format, of 0] have t0: "leaf_texts e' ! 0 = Some (str ''X'')"
    by simp
  from all [rule_format, of 1] have t1: "leaf_texts e' ! 1 = Some (str ''Y'')"
    by simp
  from all [rule_format, of 2] have t2: "leaf_texts e' ! 2 = Some (str ''Z W'')"
    by (simp add: str_def)
  have "leaf_texts e' = [Some (str ''X''), Some (str ''Y''), Some (str ''Z W'')]"
  proof (rule nth_equalityI)
    show "length (leaf_texts e') = length [Some (str ''X''), Some (str ''Y''), Some (str ''Z W'')]"
      using len by simp
  next
    fix i assume "i < length (leaf_texts e')"
    with len have "i = 0 \<or> i = 1 \<or> i = 2" by auto
    with t0 t1 t2 show "leaf_texts e' ! i = [Some (str ''X''), Some (str ''Y''), Some (str ''Z W'')] ! i"
      by auto
  qed
  with e' h1 n show ?thesis by auto
qed

text \<open>
  Claim C5 on the three leaves and the text \<open>"X Y Z W"\<close>.
\<close>

theorem update_text_word_conservation_witness:
  "2 \<le> length (iter w_t para3) \<and> py_split (str ''X Y Z W'') \<noteq> [] \<and>
   (\<exists>e'. update_text para3 (Some (str ''X Y Z W'')) = Inr e' \<and>
         length (leaf_texts e') = 3 \<and>
         py_split (py_strip (py_join (str '' '') (map text_or_empty (leaf_texts e'))))
           = [str ''X'', str ''Y'', str ''Z'', str ''W''])"
proof -
  have h1: "2 \<le> length (iter w_t para3)" by (simp add: iter_para3)
  have h2: "py_split (str ''X Y Z W'') \<noteq> []" by (simp add: split_XYZW)
  from update_text_word_conservation [OF h1 h2] h1 h2
  show ?thesis by (simp add: split_XYZW iter_para3 eval_nat_numeral)
qed

section \<open>The client: bounded attempts\<close>

lemma translate_loop_attempts:
  "length (snd (translate_loop c src lang attempt lg)) \<le> length lg + nat (max_retries c - attempt)"
proof (induction c src lang attempt lg rule: translate_loop.induct)
  case (1 c src lang attempt lg)
  show ?case
  proof (cases "attempt < max_retries c")
    case False
    then show ?thesis by (simp add: translate_loop.simps [of c src lang attempt lg])
  next
    case lt: True
    show ?thesis
    proof (cases "translator c (length lg) src lang")
      case (Some r)
      with lt show ?thesis by (simp add: translate_loop.simps [of c src lang attempt lg])
    next
      case None
      show ?thesis
      proof (cases "attempt + 1 = max_retries c")
        case True
        with lt None show ?thesis by (simp add: translate_loop.simps [of c src lang attempt lg])
      next
        case False
        from "1.IH" [OF lt None False]
        have "length (snd (translate_loop c src lang (attempt + 1) (lg @ [(src, lang)])))
                \<le> length lg + 1 + nat (max_retries c - (attempt + 1))" by simp
        moreover from lt have "1 + nat (max_retries c - (attempt + 1)) = nat (max_retries c - attempt)"
          by simp
        ultimately show ?thesis
          using lt None False by (simp add: translate_loop.simps [of c src lang attempt lg])
      qed
    qed
  qed
qed

lemma translate_loop_all_fail:
  "attempt < max_retries c \<Longrightarrow>
   \<forall>k. length lg \<le> k \<and> k < length lg + nat (max_retries c - attempt)
         \<longrightarrow> translator c k src lang = None \<Longrightarrow>
   fst (translate_loop c src lang attempt lg) = Some (str ''error'')"
proof (induction c src lang attempt lg rule: translate_loop.induct)
  case (1 c src lang attempt lg)
  from "1.prems" have None: "translator c (length lg) src lang = None" by simp
  show ?case
  proof (cases "attempt + 1 = max_retries c")
    case True
    with None "1.prems"(1) show ?thesis by (simp add: translate_loop.simps [of c src lang attempt lg])
  next
    case False
    with "1.prems"(1) have lt: "attempt + 1 < max_retries c" by simp
    have "\<forall>k. length (lg @ [(src, lang)]) \<le> k \<and>
              k < length (lg @ [(src, lang)]) + nat (max_retries c - (attempt + 1))
            \<longrightarrow> translator c k src lang = None"
    proof (intro allI impI)
      fix k assume k: "length (lg @ [(src, lang)]) \<le> k \<and>
              k < length (lg @ [(src, lang)]) + nat (max_retries c - (attempt + 1))"
      from lt have "1 + nat (max_retries c - (attempt + 1)) = nat (max_retries c - attempt)"
        by simp
      with k have "length lg \<le> k \<and> k < length lg + nat (max_retries c - attempt)" by simp
      with "1.prems"(2) show "translator c k src lang = None" by blast
    qed
    from "1.IH" [OF "1.prems"(1) None False lt this]
    show ?thesis using "1.prems"(1) None False by (simp add: translate_loop.simps [of c src lang attempt lg])
  qed
qed

lemma translate_requests:
  "requests (snd (translate c src lang st)) = requests st @ [(src, lang)]"
  by (simp add: translate_def split: prod.splits)

lemma translate_Some:
  "1 \<le> max_retries c \<Longrightarrow> \<exists>s. fst (translate c src lang st) = Some s"
proof -
  assume "1 \<le> max_retries c"
  then have "0 < max_retries c" by simp
  from translate_loop_Some [OF this, of src lang "attempts st"]
  show ?thesis by (auto simp: translate_def split: prod.splits)
qed


section \<open>The passes absorb backend failures\<close>

lemma translate_paragraphs_ok:
  "1 \<le> max_retries c \<Longrightarrow> \<exists>r. translate_paragraphs c lang ps root st = Inr r"
proof (induction ps arbitrary: root st)
  case Nil
  show ?case by simp
next
  case (Cons p ps)
  show ?case
  proof (cases "get root p")
    case None
    with Cons.IH [OF Cons.prems] show ?thesis by simp
  next
    case (Some element)
    show ?thesis
    proof (cases "py_strip (extract_text element) \<noteq> []")
      case False
      with Some Cons.IH [OF Cons.prems] show ?thesis by simp
    next
      case True
      obtain r st' where tr: "translate c (extract_text element) lang st = (r, st')"
        by (cases "translate c (extract_text element) lang st")
      from translate_Some [OF Cons.prems, of "extract_text element" lang st] tr
      obtain s where r: "r = Some s" by auto
      from Cons.IH [OF Cons.prems, of "modify p (\<lambda>_. redistribute element s) root" st']
      show ?thesis using Some True tr r by (simp add: update_text_def)
    qed
  qed
qed

lemma translate_tree_ok:
  "1 \<le> max_retries c \<Longrightarrow> \<exists>r. translate_tree c lang root st = Inr r"
proof -
  assume "1 \<le> max_retries c"
  from translate_paragraphs_ok [OF this, of lang "findall w_p root" root st]
  obtain r where "translate_paragraphs c lang (findall w_p root) root st = Inr r" by blast
  then show ?thesis by (cases r) (simp add: translate_tree_def)
qed

lemma translate_document_body_errors:
  assumes "1 \<le> max_retries c"
  shows "fst (translate_document_body env c lang d fs st) \<in> {None, Some IOError, Some FormatError}"
proof (cases "input_file env")
  case None
  then show ?thesis by (simp add: translate_document_body_def)
next
  case (Some members)
  obtain res d1 where ex: "extractall members d = (res, d1)"
    by (cases "extractall members d")
  show ?thesis
  proof (cases res)
    case err: (Some err)
    have "\<And>d'. fst (extractall members d') \<in> {None, Some IOError}"
    proof (induction members)
      case Nil
      show ?case by simp
    next
      case (Cons m members)
      show ?case
      proof (cases "extract_member m d'")
        case (Inl e)
        then have "e = IOError"
          by (auto simp: extract_member_def Let_def split: if_splits)
        with Inl show ?thesis by simp
      next
        case (Inr d2)
        with Cons.IH [of d2] show ?thesis by simp
      qed
    qed
    from this [of d] ex err have "err = IOError" by simp
    with Some ex err show ?thesis by (simp add: translate_document_body_def)
  next
    case None
    show ?thesis
    proof (cases "map_of (files d1) doc_xml_path")
      case nx: None
      with Some ex None show ?thesis by (simp add: translate_document_body_def)
    next
      case xml: (Some xml)
      show ?thesis
      proof (cases "parse env xml")
        case np: None
        with Some ex None xml show ?thesis by (simp add: translate_document_body_def)
      next
        case root: (Some root)
        from translate_tree_ok [OF assms, of lang root st]
        obtain root' st' where "translate_tree c lang root st = Inr (root', st')" by auto
        with Some ex None xml root show ?thesis
          by (simp add: translate_document_body_def Let_def split: option.splits)
      qed
    qed
  qed
qed

lemma translate_document_errors:
  assumes "1 \<le> max_retries c"
  shows "fst (translate_document env c lang fs st) \<in> {None, Some IOError, Some FormatError}"
proof -
  let ?d = "\<lparr>files = [], subdirs = []\<rparr>"
  let ?fs = "(rmtree_if_exists fs)\<lparr>temp_dir := Some ?d\<rparr>"
  have "fst (translate_document env c lang fs st) = fst (translate_document_body env c lang ?d ?fs st)"
    by (simp add: translate_document_def Let_def split: prod.splits)
  with translate_document_body_errors [OF assms, of env lang ?d ?fs st]
  show ?thesis by simp
qed


section \<open>Unpacking and repacking\<close>

lemma extract_member_file:
  assumes "extract_member (name, content) d = Inr d'" and "\<not> is_dir name" and "sanitize name = name"
  shows "files d' = AList.update name content (files d)"
  using assms
  by (auto simp: extract_member_def Let_def split: if_splits)

lemma extractall_files:
  "extractall members d = (None, d') \<Longrightarrow>
   \<forall>m\<in>set members. \<not> is_dir (fst m) \<and> sanitize (fst m) = fst m \<Longrightarrow>
   fst ` set (files d') = fst ` set (files d) \<union> fst ` set members \<and>
   (distinct (map fst (files d)) \<longrightarrow> distinct (map fst (files d'))) \<and>
   map_of (files d') = map_of (files d) ++ map_of (rev members)"
proof (induction members arbitrary: d)
  case Nil
  then show ?case by simp
next
  case (Cons m members)
  obtain name content where m: "m = (name, content)" by (cases m)
  from Cons.prems(1) m obtain d1 where
    em: "extract_member (name, content) d = Inr d1" and rest: "extractall members d1 = (None, d')"
    by (auto split: sum.splits)
  from Cons.prems(2) m have nd: "\<not> is_dir name" and sn: "sanitize name = name"
    and others: "\<forall>m\<in>set members. \<not> is_dir (fst m) \<and> sanitize (fst m) = fst m"
    by simp_all
  from extract_member_file [OF em nd sn]
  have f1: "files d1 = AList.update name content (files d)" .
  from Cons.IH [OF rest others]
  have names: "fst ` set (files d') = fst ` set (files d1) \<union> fst ` set members"
    and dist: "distinct (map fst (files d1)) \<longrightarrow> distinct (map fst (files d'))"
    and content: "map_of (files d') = map_of (files d1) ++ map_of (rev members)"
    by simp_all
  have "fst ` set (files d') = fst ` set (files d) \<union> fst ` set (m # members)"
    using names by (auto simp: f1 m dom_update)
  moreover have "distinct (map fst (files d)) \<longrightarrow> distinct (map fst (files d'))"
    using dist by (simp add: f1 distinct_update)
  moreover have "map_of (files d') = map_of (files d) ++ map_of (rev (m # members))"
  proof -
    have "map_of (files d') = (map_of (files d))(name \<mapsto> content) ++ map_of (rev members)"
      using content by (simp add: f1 update_conv')
    also have "\<dots> = map_of (files d) ++ map_of (rev (m # members))"
      by (rule ext) (simp add: m map_add_def split: option.splits)
    finally show ?thesis .
  qed
  ultimately show ?case by blast
qed

lemma output_file_rmtree [simp]: "output_file (rmtree_if_exists fs) = output_file fs"
  by (simp add: rmtree_if_exists_def)

lemma translate_document_body_success:
  assumes "translate_document_body env c lang d fs st = (None, fs2, st2)"
    and "input_file env = Some members"
    and "output_inside env = None"
  shows "\<exists>d1 xml content. extractall members d = (None, d1) \<and>
           map_of (files d1) doc_xml_path = Some xml \<and>
           output_file fs2 = Some (AList.update doc_xml_path content (files d1))"
proof -
  obtain res d1 where ex: "extractall members d = (res, d1)"
    by (cases "extractall members d")
  show ?thesis
  proof (cases res)
    case (Some err)
    with assms ex show ?thesis by (simp add: translate_document_body_def)
  next
    case None
    show ?thesis
    proof (cases "map_of (files d1) doc_xml_path")
      case nx: None
      with assms ex None show ?thesis by (simp add: translate_document_body_def)
    next
      case xml: (Some xml)
      show ?thesis
      proof (cases "parse env xml")
        case np: None
        with assms ex None xml show ?thesis by (simp add: translate_document_body_def)
      next
        case root: (Some root)
        show ?thesis
        proof (cases "translate_tree c lang root st")
          case (Inl err)
          with assms ex None xml root show ?thesis by (simp add: translate_document_body_def)
        next
          case (Inr r)
          obtain root' st' where r: "r = (root', st')" by (cases r)
          from assms ex None xml root Inr r show ?thesis
            by (auto simp: translate_document_body_def Let_def repack_def split: if_splits)
        qed
      qed
    qed
  qed
qed

text \<open>
  Claim C7, as amended. When \<open>translate_document\<close> returns normally on a package whose
  member names are plain relative paths (no empty, \<open>.\<close> or \<open>..\<close> component, so no leading
  slash and no directory entry), with the output path outside the scratch directory,
  the output package has exactly the member names of the input package, each once, and
  under every name other than \<open>word/document.xml\<close> the bytes of the input member of that
  name (the last one, should the input hold a name twice).
\<close>

theorem translate_document_members:
  assumes "translate_document env c lang fs st = (None, fs', st')"
    and "input_file env = Some members"
    and "\<forall>m\<in>set members. \<not> is_dir (fst m) \<and> sanitize (fst m) = fst m"
    and "output_inside env = None"
  shows "\<exists>out. output_file fs' = Some out \<and>
           distinct (map fst out) \<and>
           set (map fst out) = set (map fst members) \<and>
           (\<forall>name. name \<noteq> doc_xml_path \<longrightarrow> map_of out name = map_of (rev members) name)"
proof -
  let ?d = "\<lparr>files = [], subdirs = []\<rparr>"
  let ?fs1 = "(rmtree_if_exists fs)\<lparr>temp_dir := Some ?d\<rparr>"
  obtain res fs2 st2 where body: "translate_document_body env c lang ?d ?fs1 st = (res, fs2, st2)"
    by (cases "translate_document_body env c lang ?d ?fs1 st")
  with assms(1) have res: "res = None" and fs': "fs' = rmtree_if_exists fs2"
    by (simp_all add: translate_document_def Let_def)
  from translate_document_body_success [OF body [unfolded res] assms(2) assms(4)]
  obtain d1 xml content where ex: "extractall members ?d = (None, d1)"
    and xml: "map_of (files d1) doc_xml_path = Some xml"
    and out: "output_file fs2 = Some (AList.update doc_xml_path content (files d1))"
    by blast
  let ?out = "AList.update doc_xml_path content (files d1)"
  from extractall_files [OF ex assms(3)]
  have names1: "fst ` set (files d1) = fst ` set members"
    and dist1: "distinct (map fst (files d1))"
    and content1: "map_of (files d1) = map_of (rev members)"
    by simp_all
  from xml have "doc_xml_path \<in> fst ` set (files d1)"
    by (meson domI domIff map_of_eq_None_iff)
  then have "fst ` set ?out = fst ` set (files d1)"
    by (auto simp: dom_update)
  with names1 have names: "set (map fst ?out) = set (map fst members)" by simp
  from dist1 have dist: "distinct (map fst ?out)" by (rule distinct_update)
  from content1 have content: "\<forall>name. name \<noteq> doc_xml_path \<longrightarrow> map_of ?out name = map_of (rev members) name"
    by (simp add: update_conv')
  from out fs' have "output_file fs' = Some ?out" by simp
  with dist names content show ?thesis by blast
qed

section \<open>Requests of the paragraph pass and of the table pass\<close>

lemma process_cells_visit:
  "process_cells c lang ps row st = visit (process_cell c lang) ps row st"
  by (induction ps arbitrary: row st) (simp_all split: option.splits prod.splits)

lemma process_rows_visit:
  "process_rows c lang ps table st =
     visit (\<lambda>row. process_cells c lang (findall w_tc row) row) ps table st"
  by (induction ps arbitrary: table st) (simp_all split: option.splits prod.splits)

lemma process_tables_visit:
  "process_tables c lang ps root st = visit (process_table c lang) ps root st"
  by (induction ps arbitrary: root st) (simp_all split: option.splits prod.splits)

lemma get_modify_other:
  "\<not> prefix p q \<Longrightarrow> \<not> prefix q p \<Longrightarrow> get (modify p f e) q = get e q"
proof (induction p arbitrary: q e)
  case Nil
  then show ?case by simp
next
  case (Cons i p)
  from Cons.prems(2) obtain j q' where q: "q = j # q'" by (cases q) auto
  show ?case
  proof (cases "i < length (children e)")
    case False
    then show ?thesis by simp
  next
    case True
    show ?thesis
    proof (cases "j = i")
      case False
      with True q show ?thesis by simp
    next
      case eq: True
      with Cons.prems q have "\<not> prefix p q'" "\<not> prefix q' p" by simp_all
      from Cons.IH [OF this] True q eq show ?thesis by simp
    qed
  qed
qed

lemma visit_requests:
  assumes step: "\<And>x st. good x \<Longrightarrow> requests (snd (f x st)) = requests st @ R x"
  shows "\<forall>p\<in>set ps. \<forall>q\<in>set ps. p \<noteq> q \<longrightarrow> \<not> prefix p q \<Longrightarrow> distinct ps \<Longrightarrow>
         \<forall>p\<in>set ps. \<forall>x. get e p = Some x \<longrightarrow> good x \<Longrightarrow>
         requests (snd (visit f ps e st)) =
           requests st @ concat (map (\<lambda>p. case get e p of None \<Rightarrow> [] | Some x \<Rightarrow> R x) ps)"
proof (induction ps arbitrary: e st)
  case Nil
  show ?case by simp
next
  case (Cons p ps)
  from Cons.prems have sep: "\<forall>a\<in>set ps. \<forall>b\<in>set ps. a \<noteq> b \<longrightarrow> \<not> prefix a b"
    and d: "distinct ps" by simp_all
  from Cons.prems have other: "\<And>q. q \<in> set ps \<Longrightarrow> \<not> prefix p q \<and> \<not> prefix q p"
    by auto
  from Cons.prems(3) have good_rest: "\<forall>q\<in>set ps. \<forall>x. get e q = Some x \<longrightarrow> good x"
    by simp
  show ?case
  proof (cases "get e p")
    case None
    with Cons.IH [OF sep d good_rest, of st] show ?thesis by simp
  next
    case (Some x)
    with Cons.prems(3) have gx: "good x" by simp
    obtain x' st1 where fx: "f x st = (x', st1)" by (cases "f x st")
    from step [OF gx, of st] fx have req1: "requests st1 = requests st @ R x" by simp
    let ?e1 = "modify p (\<lambda>_. x') e"
    have same: "\<And>q. q \<in> set ps \<Longrightarrow> get ?e1 q = get e q"
      using other by (simp add: get_modify_other)
    then have good1: "\<forall>q\<in>set ps. \<forall>y. get ?e1 q = Some y \<longrightarrow> good y"
      using good_rest by simp
    have "map (\<lambda>q. case get ?e1 q of None \<Rightarrow> [] | Some y \<Rightarrow> R y) ps
        = map (\<lambda>q. case get e q of None \<Rightarrow> [] | Some y \<Rightarrow> R y) ps"
      by (rule map_cong [OF refl]) (simp add: same)
    with Cons.IH [OF sep d good1, of st1]
    have "requests (snd (visit f ps ?e1 st1)) =
        requests st1 @ concat (map (\<lambda>q. case get e q of None \<Rightarrow> [] | Some y \<Rightarrow> R y) ps)"
      by simp
    with Some fx req1 show ?thesis by simp
  qed
qed

lemma py_strip_empty [simp]: "py_strip [] = []"
  by (simp add: py_strip_def)

lemma translate_paragraphs_requests:
  assumes "1 \<le> max_retries c"
  shows "\<forall>p\<in>set ps. \<forall>q\<in>set ps. p \<noteq> q \<longrightarrow> \<not> prefix p q \<Longrightarrow> distinct ps \<Longrightarrow>
    \<exists>root' st'. translate_paragraphs c lang ps root st = Inr (root', st') \<and>
       requests st' = requests st @
         map (\<lambda>t. (t, lang)) (filter (\<lambda>t. py_strip t \<noteq> []) (map (extract_text_at root) ps))"
proof (induction ps arbitrary: root st)
  case Nil
  show ?case by simp
next
  case (Cons p ps)
  from Cons.prems have sep: "\<forall>a\<in>set ps. \<forall>b\<in>set ps. a \<noteq> b \<longrightarrow> \<not> prefix a b"
    and d: "distinct ps" by simp_all
  from Cons.prems have other: "\<And>q. q \<in> set ps \<Longrightarrow> \<not> prefix p q \<and> \<not> prefix q p"
    by auto
  show ?case
  proof (cases "get root p")
    case None
    with Cons.IH [OF sep d, of root st] show ?thesis by (simp add: extract_text_at_def)
  next
    case (Some element)
    show ?thesis
    proof (cases "py_strip (extract_text element) \<noteq> []")
      case False
      with Some Cons.IH [OF sep d, of root st] show ?thesis by (simp add: extract_text_at_def)
    next
      case True
      obtain r st1 where tr: "translate c (extract_text element) lang st = (r, st1)"
        by (cases "translate c (extract_text element) lang st")
      from translate_Some [OF assms, of "extract_text element" lang st] tr
      obtain s where r: "r = Some s" by auto
      from translate_requests [of c "extract_text element" lang st] tr
      have req1: "requests st1 = requests st @ [(extract_text element, lang)]" by simp
      let ?root1 = "modify p (\<lambda>_. redistribute element s) root"
      have same: "map (extract_text_at ?root1) ps = map (extract_text_at root) ps"
      proof (rule map_cong [OF refl])
        fix q assume "q \<in> set ps"
        from other [OF this] have "get ?root1 q = get root q"
          by (simp add: get_modify_other)
        then show "extract_text_at ?root1 q = extract_text_at root q"
          by (simp add: extract_text_at_def)
      qed
      from Cons.IH [OF sep d, of ?root1 st1]
      obtain root' st' where res: "translate_paragraphs c lang ps ?root1 st1 = Inr (root', st')"
        and req: "requests st' = requests st1 @
           map (\<lambda>t. (t, lang)) (filter (\<lambda>t. py_strip t \<noteq> []) (map (extract_text_at ?root1) ps))"
        by blast
      have "translate_paragraphs c lang (p # ps) root st = Inr (root', st')"
        using Some True tr r res by (simp add: update_text_def)
      moreover have "requests st' = requests st @
         map (\<lambda>t. (t, lang)) (filter (\<lambda>t. py_strip t \<noteq> []) (map (extract_text_at root) (p # ps)))"
        using req req1 same Some True by (simp add: extract_text_at_def)
      ultimately show ?thesis by blast
    qed
  qed
qed


lemma iter_refs_list_mem:
  "i < length cs \<Longrightarrow> r \<in> set (iter_refs P (cs ! i)) \<Longrightarrow> (j + i) # r \<in> set (iter_refs_list P j cs)"
proof (induction cs arbitrary: i j)
  case Nil
  then show ?case by simp
next
  case (Cons c cs)
  show ?case
  proof (cases i)
    case 0
    with Cons.prems show ?thesis by simp
  next
    case (Suc i')
    with Cons.prems have "i' < length cs" "r \<in> set (iter_refs P (cs ! i'))" by simp_all
    from Cons.IH [OF this, of "Suc j"] Suc show ?thesis by simp
  qed
qed

lemma findall_subset_iter: "set (findall tg e) \<subseteq> set (iter_refs (\<lambda>t. t = tg) e)"
  by (simp add: findall_def iter_refs_unfold [of _ e])

lemma findall_sub:
  "get e p = Some x \<Longrightarrow> r \<in> set (findall tg x) \<Longrightarrow> p @ r \<in> set (findall tg e)"
proof (induction p arbitrary: e)
  case Nil
  then show ?case by simp
next
  case (Cons i p)
  from Cons.prems(1) have i: "i < length (children e)" and g: "get (children e ! i) p = Some x"
    by (simp_all split: if_splits)
  from Cons.IH [OF g Cons.prems(2)] findall_subset_iter
  have "p @ r \<in> set (iter_refs (\<lambda>t. t = tg) (children e ! i))" by blast
  from iter_refs_list_mem [OF i this, of 0] show ?case by (simp add: findall_def)
qed

lemma no_nesting_sub:
  assumes "no_nesting tg e" and "get e p = Some x"
  shows "no_nesting tg x"
  unfolding no_nesting_def
proof (intro ballI impI)
  fix r r' assume r: "r \<in> set (findall tg x)" and r': "r' \<in> set (findall tg x)" and ne: "r \<noteq> r'"
  have a: "p @ r \<in> set (findall tg e)" and b: "p @ r' \<in> set (findall tg e)"
    using findall_sub [OF assms(2) r] findall_sub [OF assms(2) r'] by simp_all
  from ne have "p @ r \<noteq> p @ r'" by simp
  with a b assms(1) have "\<not> prefix (p @ r) (p @ r')"
    unfolding no_nesting_def by blast
  then show "\<not> prefix r r'" by simp
qed

lemma findall_distinct: "distinct (findall tg e)"
  by (simp add: findall_def iter_refs_distinct)

lemma findall_shape: "shape e = shape e' \<Longrightarrow> findall tg e = findall tg e'"
proof -
  assume "shape e = shape e'"
  then have "map shape (children e) = map shape (children e')"
    by (metis shape_sel(2))
  then show ?thesis
    by (metis findall_def iter_refs_shape(2))
qed

lemma no_nesting_shape: "shape e = shape e' \<Longrightarrow> no_nesting tg e \<Longrightarrow> no_nesting tg e'"
  by (simp add: no_nesting_def findall_shape [of e e'])

lemma shape_modify_at:
  "get e p = Some x \<Longrightarrow> shape y = shape x \<Longrightarrow> shape (modify p (\<lambda>_. y) e) = shape e"
proof (induction p arbitrary: e)
  case Nil
  then show ?case by simp
next
  case (Cons i p)
  from Cons.prems(1) have i: "i < length (children e)" and g: "get (children e ! i) p = Some x"
    by (simp_all split: if_splits)
  have "map shape ((children e)[i := modify p (\<lambda>_. y) (children e ! i)])
      = (map shape (children e))[i := shape (modify p (\<lambda>_. y) (children e ! i))]"
    by (rule map_update)
  also have "\<dots> = (map shape (children e))[i := shape (children e ! i)]"
    using Cons.IH [OF g Cons.prems(2)] by simp
  also have "\<dots> = map shape (children e)"
    using i by (simp add: map_update [symmetric])
  finally show ?case using i by (cases e) simp
qed

lemma redistribute_shape: "shape (redistribute e s) = shape e"
  by (simp add: redistribute_def Let_def shape_set_text assign_words_shape split: list.splits)

lemma translate_paragraphs_shape:
  "translate_paragraphs c lang ps root st = Inr (root', st') \<Longrightarrow> shape root' = shape root"
proof (induction ps arbitrary: root st)
  case Nil
  then show ?case by simp
next
  case (Cons p ps)
  show ?case
  proof (cases "get root p")
    case None
    with Cons show ?thesis by simp
  next
    case (Some element)
    show ?thesis
    proof (cases "py_strip (extract_text element) \<noteq> []")
      case False
      with Some Cons show ?thesis by simp
    next
      case True
      obtain r st1 where tr: "translate c (extract_text element) lang st = (r, st1)"
        by (cases "translate c (extract_text element) lang st")
      show ?thesis
      proof (cases r)
        case None
        with Cons.prems Some True tr show ?thesis by (simp add: update_text_def)
      next
        case s: (Some s)
        let ?root1 = "modify p (\<lambda>_. redistribute element s) root"
        from Cons.prems Some True tr s
        have "translate_paragraphs c lang ps ?root1 st1 = Inr (root', st')"
          by (simp add: update_text_def)
        then have "shape root' = shape ?root1" by (rule Cons.IH)
        also have "\<dots> = shape root"
          using Some by (rule shape_modify_at) (rule redistribute_shape)
        finally show ?thesis .
      qed
    qed
  qed
qed

lemma process_cell_requests:
  "requests (snd (process_cell c lang cell st)) = requests st @ cell_requests lang cell"
proof (cases "py_strip (cell_text_of cell (findall w_p cell) []) \<noteq> []")
  case False
  then show ?thesis by (simp add: process_cell_def cell_requests_def)
next
  case True
  let ?t = "py_strip (cell_text_of cell (findall w_p cell) [])"
  obtain r st1 where tr: "translate c ?t lang st = (r, st1)"
    by (cases "translate c ?t lang st")
  from translate_requests [of c ?t lang st] tr
  have "requests st1 = requests st @ [(?t, lang)]" by simp
  moreover have "snd (process_cell c lang cell st) = st1"
    using True tr
    by (simp add: process_cell_def Let_def split: list.splits option.splits sum.splits)
  ultimately show ?thesis using True by (simp add: cell_requests_def)
qed

lemma process_cells_requests:
  assumes "no_nesting w_tc row"
  shows "requests (snd (process_cells c lang (findall w_tc row) row st)) =
           requests st @ requests_below (cell_requests lang) w_tc row"
proof -
  have "requests (snd (visit (process_cell c lang) (findall w_tc row) row st)) =
      requests st @ concat (map (\<lambda>p. case get row p of None \<Rightarrow> [] | Some x \<Rightarrow> cell_requests lang x)
        (findall w_tc row))"
  proof (rule visit_requests [where good = "\<lambda>x. True"])
    show "\<And>x st. True \<Longrightarrow> requests (snd (process_cell c lang x st)) = requests st @ cell_requests lang x"
      by (rule process_cell_requests)
    show "\<forall>p\<in>set (findall w_tc row). \<forall>q\<in>set (findall w_tc row). p \<noteq> q \<longrightarrow> \<not> prefix p q"
      using assms by (simp add: no_nesting_def)
    show "distinct (findall w_tc row)" by (rule findall_distinct)
    show "\<forall>p\<in>set (findall w_tc row). \<forall>x. get row p = Some x \<longrightarrow> True" by simp
  qed
  then show ?thesis by (simp add: process_cells_visit requests_below_def)
qed

lemma process_table_requests:
  assumes "no_nesting w_tr table" and "no_nesting w_tc table"
  shows "requests (snd (process_table c lang table st)) = requests st @ table_requests lang table"
proof -
  have "requests (snd (visit (\<lambda>row. process_cells c lang (findall w_tc row) row)
                         (findall w_tr table) table st)) =
      requests st @ concat (map (\<lambda>p. case get table p of None \<Rightarrow> []
                                       | Some x \<Rightarrow> requests_below (cell_requests lang) w_tc x)
        (findall w_tr table))"
  proof (rule visit_requests [where good = "no_nesting w_tc"])
    show "\<And>x st. no_nesting w_tc x \<Longrightarrow>
        requests (snd (process_cells c lang (findall w_tc x) x st)) =
          requests st @ requests_below (cell_requests lang) w_tc x"
      by (rule process_cells_requests)
    show "\<forall>p\<in>set (findall w_tr table). \<forall>q\<in>set (findall w_tr table). p \<noteq> q \<longrightarrow> \<not> prefix p q"
      using assms(1) by (simp add: no_nesting_def)
    show "distinct (findall w_tr table)" by (rule findall_distinct)
    show "\<forall>p\<in>set (findall w_tr table). \<forall>x. get table p = Some x \<longrightarrow> no_nesting w_tc x"
      using assms(2) no_nesting_sub by blast
  qed
  then show ?thesis
    by (simp add: process_table_def process_rows_visit table_requests_def requests_below_def)
qed

lemma process_tables_requests:
  assumes "no_nesting w_tbl root" and "no_nesting w_tr root" and "no_nesting w_tc root"
  shows "requests (snd (process_tables c lang (findall w_tbl root) root st)) =
           requests st @ table_pass_requests lang root"
proof -
  have "requests (snd (visit (process_table c lang) (findall w_tbl root) root st)) =
      requests st @ concat (map (\<lambda>p. case get root p of None \<Rightarrow> []
                                       | Some x \<Rightarrow> table_requests lang x)
        (findall w_tbl root))"
  proof (rule visit_requests [where good = "\<lambda>x. no_nesting w_tr x \<and> no_nesting w_tc x"])
    show "\<And>x st. no_nesting w_tr x \<and> no_nesting w_tc x \<Longrightarrow>
        requests (snd (process_table c lang x st)) = requests st @ table_requests lang x"
      by (simp add: process_table_requests)
    show "\<forall>p\<in>set (findall w_tbl root). \<forall>q\<in>set (findall w_tbl root). p \<noteq> q \<longrightarrow> \<not> prefix p q"
      using assms(1) by (simp add: no_nesting_def)
    show "distinct (findall w_tbl root)" by (rule findall_distinct)
    show "\<forall>p\<in>set (findall w_tbl root). \<forall>x. get root p = Some x \<longrightarrow>
        no_nesting w_tr x \<and> no_nesting w_tc x"
      using assms(2,3) no_nesting_sub by blast
  qed
  then show ?thesis
    by (simp add: process_tables_visit table_pass_requests_def requests_below_def)
qed


section \<open>The passes on the example documents\<close>

lemma qname_m_w [simp]: "qname ns_m a \<noteq> qname ns_w b" "qname ns_w b \<noteq> qname ns_m a"
proof -
  have "\<not> prefix (ns_m @ str ''}'' @ str a) (ns_w @ str ''}'' @ str b)"
    by (rule ns_differ)
  then show "qname ns_m a \<noteq> qname ns_w b" by (auto simp: qname_def)
  then show "qname ns_w b \<noteq> qname ns_m a" by (rule not_sym)
qed

lemmas doc_defs = wrap_def document_def st0_def failing_client_def echo_client_def fixed_client_def
  no_retry_client_def leaf_texts_after_def requests_after_def doc_bonjour_def table1_def
  doc_mixed_def doc_formula_cell_def table_empty_first_def table_hello_world_def
  formula_para_def run_def

lemmas eval_defs = translate_tree_def process_table_def process_cell_def translate_def
  translate_loop.simps extract_text_def is_math_element_def update_text_def redistribute_def
  iter_def findall_def text_at_def set_text_def leaf_texts_def py_strip_def py_split_def py_slice_def
  isspace_def Let_def tag_defs extract_text_at_def

lemmas strs = str_def [of "''error''"] str_def [of "''Bonjour''"] str_def [of "''Hello''"]
  str_def [of "'' ''"] str_def [of "''E''"] str_def [of "''Hello ''"] str_def [of "''World''"]
  str_def [of "''Hello World''"] str_def [of "''Bonjour le monde''"]

text \<open>
  Claim C1, on the code. A paragraph outside any table with the single leaf
  \<open>"Bonjour"\<close> and a backend that raises at every attempt: \<open>translate\<close> returns the
  sentinel \<open>"error"\<close>, the paragraph pass hands it to \<open>update_text\<close> without a test, and
  the leaf holds \<open>"error"\<close> afterwards, not its original text.
\<close>

theorem paragraph_failure_writes_sentinel:
  "leaf_texts doc_bonjour = [Some (str ''Bonjour'')] \<and>
   fst (translate failing_client (str ''Bonjour'') (str ''English'') st0) = Some (str ''error'') \<and>
   leaf_texts_after (translate_tree failing_client (str ''English'') doc_bonjour st0)
     = Inr [Some (str ''error'')]"
  by (simp add: doc_defs eval_defs strs)


text \<open>For every element that contains a formula, \<open>extract_text\<close> returns the empty string.\<close>

lemma extract_text_formula:
  "is_math_element element \<Longrightarrow> extract_text element = []"
  by (simp add: extract_text_def)

text \<open>
  Claim C3, on the code. A cell whose first paragraph holds a formula and the leaf
  \<open>"E"\<close>, and whose second paragraph holds \<open>"Hello"\<close>. The first paragraph is a formula
  container and its extracted text is empty, yet the table pass writes the translation
  of the cell into its leaf.
\<close>

theorem formula_paragraph_rewritten_in_table:
  "is_math_element formula_para \<and> extract_text formula_para = [] \<and>
   leaf_texts doc_formula_cell = [Some (str ''E''), Some (str ''Hello'')] \<and>
   leaf_texts_after (translate_tree echo_client (str ''English'') doc_formula_cell st0)
     = Inr [Some (str ''Hello''), Some []]"
  by (simp add: doc_defs eval_defs strs)

text \<open>
  Claim C6, on the code. A cell whose first paragraph has no text leaf and whose second
  paragraph holds \<open>"Hello"\<close>; the backend answers \<open>"Bonjour"\<close>. \<open>process_table\<close> makes one
  request, \<open>update_text\<close> on the first paragraph finds no leaf and returns, and the second
  paragraph is cleared: no paragraph of the cell carries the result.
\<close>

theorem cell_text_lost_without_first_leaf:
  "leaf_texts table_empty_first = [Some (str ''Hello'')] \<and>
   leaf_texts (fst (process_table (fixed_client ''Bonjour'') (str ''French'') table_empty_first st0))
     = [Some []] \<and>
   requests (snd (process_table (fixed_client ''Bonjour'') (str ''French'') table_empty_first st0))
     = [(str ''Hello'', str ''French'')]"
  by (simp add: doc_defs eval_defs strs)

lemmas fs_defs = translate_document_def translate_document_body_def rmtree_if_exists_def repack_def
  env_of_def plain_members_def odd_members_def clash_members_def fs_stale_def is_dir_def doc_xml_path_def
  extract_member_def sanitize_def parent_dirs_def
  str_def [of "''word/document.xml''"] str_def [of "''word/''"] str_def [of "''[Content_Types].xml''"]
  str_def [of "''old.xml''"] str_def [of "''/''"] str_def [of "''.''"] str_def [of "''..''"]
  str_def [of "''../x.txt''"] str_def [of "''x.txt''"] str_def [of "''out.docx''"]
  str_def [of "''a''"] str_def [of "''a/b''"]

text \<open>
  The scenario of the spec for a cell: the paragraphs \<open>"Hello "\<close> and \<open>"World"\<close> make the
  one request \<open>"Hello World"\<close>; the answer goes to the first paragraph and the second
  is emptied.
\<close>

lemma cell_aggregation_scenario:
  "requests (snd (process_table (fixed_client ''Bonjour le monde'') (str ''French'')
       table_hello_world st0)) = [(str ''Hello World'', str ''French'')] \<and>
   leaf_texts (fst (process_table (fixed_client ''Bonjour le monde'') (str ''French'')
       table_hello_world st0)) = [Some (str ''Bonjour le monde''), Some []]"
  by (simp add: doc_defs eval_defs strs)

lemma echo_bonjour:
  "translate_tree echo_client lang doc_bonjour st0 =
     Inr (doc_bonjour, \<lparr>attempts = [(str ''Bonjour'', lang)], requests = [(str ''Bonjour'', lang)]\<rparr>)"
  by (simp add: doc_defs eval_defs strs)

lemma no_retry_bonjour:
  "translate_tree no_retry_client lang doc_bonjour st0 = Inl AttributeError"
  by (simp add: doc_defs eval_defs strs)

lemmas request_defs = paragraph_requests_def table_pass_requests_def table_requests_def
  requests_below_def cell_requests_def


text \<open>
  The amended C7 on a package of two file members, with a scratch directory left over
  from an earlier run.
\<close>

theorem translate_document_members_witness:
  "fst (translate_document (env_of plain_members) echo_client (str ''English'') fs_stale st0) = None \<and>
   \<not> is_dir (str ''[Content_Types].xml'') \<and> \<not> is_dir doc_xml_path \<and>
   sanitize (str ''[Content_Types].xml'') = str ''[Content_Types].xml'' \<and>
   sanitize doc_xml_path = doc_xml_path \<and>
   output_inside (env_of plain_members) = None \<and>
   (\<exists>out. output_file (fst (snd (translate_document (env_of plain_members) echo_client
               (str ''English'') fs_stale st0))) = Some out \<and>
          distinct (map fst out) \<and>
          set (map fst out) = set (map fst plain_members) \<and>
          map_of out (str ''[Content_Types].xml'') = Some [1])"
proof -
  let ?r = "translate_document (env_of plain_members) echo_client (str ''English'') fs_stale st0"
  have h1: "fst ?r = None"
    by (simp add: fs_defs echo_bonjour)
  have h2: "input_file (env_of plain_members) = Some plain_members"
    by (simp add: env_of_def)
  have d: "\<not> is_dir (str ''[Content_Types].xml'')" "\<not> is_dir doc_xml_path"
    "sanitize (str ''[Content_Types].xml'') = str ''[Content_Types].xml''"
    "sanitize doc_xml_path = doc_xml_path"
    by (simp_all add: fs_defs)
  then have h3: "\<forall>m\<in>set plain_members. \<not> is_dir (fst m) \<and> sanitize (fst m) = fst m"
    by (simp add: plain_members_def)
  have h4: "output_inside (env_of plain_members) = None"
    by (simp add: env_of_def)
  from h1 have eq: "?r = (None, fst (snd ?r), snd (snd ?r))"
    by (metis prod.collapse)
  from translate_document_members [OF eq h2 h3 h4]
  obtain out where out: "output_file (fst (snd ?r)) = Some out" "distinct (map fst out)"
    "set (map fst out) = set (map fst plain_members)"
    and other: "\<forall>name. name \<noteq> doc_xml_path \<longrightarrow> map_of out name = map_of (rev plain_members) name"
    by blast
  have "str ''[Content_Types].xml'' \<noteq> doc_xml_path"
    by (simp add: doc_xml_path_def)
  with other have "map_of out (str ''[Content_Types].xml'')
      = map_of (rev plain_members) (str ''[Content_Types].xml'')" by blast
  also have "\<dots> = Some [1]"
    by (simp add: plain_members_def doc_xml_path_def)
  finally have "map_of out (str ''[Content_Types].xml'') = Some [1]" .
  with h1 d h4 out show ?thesis by blast
qed

text \<open>
  Claim C7, as stated, fails. The input package holds the directory entry \<open>word/\<close> and
  the member \<open>../x.txt\<close> beside \<open>word/document.xml\<close>. The run succeeds; the output package
  has no member \<open>word/\<close>, and the second member comes back under the name \<open>x.txt\<close>.
\<close>

theorem member_names_not_preserved:
  "fst (translate_document (env_of odd_members) echo_client (str ''English'') fs_stale st0) = None \<and>
   output_file (fst (snd (translate_document (env_of odd_members) echo_client
       (str ''English'') fs_stale st0))) = Some [(str ''x.txt'', [1]), (doc_xml_path, [3])] \<and>
   str ''word/'' \<in> set (map fst odd_members) \<and>
   str ''word/'' \<notin> set (map fst [(str ''x.txt'', [1::nat]), (doc_xml_path, [3])]) \<and>
   str ''../x.txt'' \<in> set (map fst odd_members) \<and>
   str ''../x.txt'' \<notin> set (map fst [(str ''x.txt'', [1::nat]), (doc_xml_path, [3])])"
  by (simp add: fs_defs echo_bonjour)

text \<open>
  A member below the path of an earlier file cannot be extracted: the call ends with the
  exception of \<open>extractall\<close> and writes no package.
\<close>

lemma extraction_clash_fails:
  "fst (translate_document (env_of clash_members) echo_client (str ''English'') fs_stale st0)
     = Some IOError \<and>
   fst (snd (translate_document (env_of clash_members) echo_client (str ''English'') fs_stale st0))
     = \<lparr>temp_dir = None, output_file = None\<rparr>"
  by (simp add: fs_defs)

text \<open>
  With the output path inside the scratch directory the call returns normally and the
  \<open>finally\<close> clause removes the package with the directory.
\<close>

lemma output_inside_scratch_lost:
  "fst (translate_document ((env_of plain_members)\<lparr>output_inside := Some (str ''out.docx'', [7])\<rparr>)
         echo_client (str ''English'') fs_stale st0) = None \<and>
   fst (snd (translate_document ((env_of plain_members)\<lparr>output_inside := Some (str ''out.docx'', [7])\<rparr>)
         echo_client (str ''English'') fs_stale st0)) = \<lparr>temp_dir = None, output_file = None\<rparr>"
  by (simp add: fs_defs echo_bonjour)

section \<open>Retries, absorbed failures and the scratch directory\<close>

text \<open>
  Claim C8, as amended. For a client with \<open>max_retries \<ge> 1\<close> (the default is 3) and every
  input text:
  \<open>translate\<close> makes at most \<open>max_retries\<close> attempts and returns a string; when every
  attempt raises, the string is the sentinel \<open>"error"\<close>; the two passes over the tree end
  without an exception, and \<open>translate_document\<close> ends normally or with an error of the
  file system or of the parser, never with one of the translation.
\<close>

theorem translate_bounded_and_absorbed:
  assumes "1 \<le> max_retries c"
  shows "length (attempts (snd (translate c src lang st)))
           \<le> length (attempts st) + nat (max_retries c) \<and>
         (\<exists>s. fst (translate c src lang st) = Some s) \<and>
         ((\<forall>k. length (attempts st) \<le> k \<and> k < length (attempts st) + nat (max_retries c)
               \<longrightarrow> translator c k src lang = None)
            \<longrightarrow> fst (translate c src lang st) = Some (str ''error'')) \<and>
         (\<exists>r. translate_tree c lang root st = Inr r) \<and>
         fst (translate_document env c lang fs st) \<in> {None, Some IOError, Some FormatError}"
proof (intro conjI impI)
  have "attempts (snd (translate c src lang st)) = snd (translate_loop c src lang 0 (attempts st))"
    by (simp add: translate_def split: prod.splits)
  with translate_loop_attempts [of c src lang 0 "attempts st"]
  show "length (attempts (snd (translate c src lang st)))
          \<le> length (attempts st) + nat (max_retries c)" by simp
next
  show "\<exists>s. fst (translate c src lang st) = Some s"
    using assms by (rule translate_Some)
next
  assume fail: "\<forall>k. length (attempts st) \<le> k \<and> k < length (attempts st) + nat (max_retries c)
               \<longrightarrow> translator c k src lang = None"
  from assms have lt: "0 < max_retries c" by simp
  from fail have "\<forall>k. length (attempts st) \<le> k \<and> k < length (attempts st) + nat (max_retries c - 0)
               \<longrightarrow> translator c k src lang = None" by simp
  from translate_loop_all_fail [OF lt this]
  show "fst (translate c src lang st) = Some (str ''error'')"
    by (auto simp: translate_def split: prod.splits)
next
  show "\<exists>r. translate_tree c lang root st = Inr r"
    using assms by (rule translate_tree_ok)
next
  show "fst (translate_document env c lang fs st) \<in> {None, Some IOError, Some FormatError}"
    using assms by (rule translate_document_errors)
qed

text \<open>
  The amended C8 on the backend that always raises.
\<close>

theorem translate_bounded_and_absorbed_witness:
  "1 \<le> max_retries failing_client \<and>
   (\<forall>k. translator failing_client k (str ''Bonjour'') (str ''English'') = None) \<and>
   length (attempts (snd (translate failing_client (str ''Bonjour'') (str ''English'') st0))) \<le> 3 \<and>
   fst (translate failing_client (str ''Bonjour'') (str ''English'') st0) = Some (str ''error'') \<and>
   (\<exists>r. translate_tree failing_client (str ''English'') doc_bonjour st0 = Inr r) \<and>
   fst (translate_document (env_of plain_members) failing_client (str ''English'') fs_stale st0)
     \<in> {None, Some IOError, Some FormatError}"
proof -
  have h: "1 \<le> max_retries failing_client" by (simp add: failing_client_def)
  have f: "\<forall>k. translator failing_client k (str ''Bonjour'') (str ''English'') = None"
    by (simp add: failing_client_def)
  from translate_bounded_and_absorbed [OF h, of "str ''Bonjour''" "str ''English''" st0 doc_bonjour
      "env_of plain_members" fs_stale] h f
  show ?thesis by (simp add: st0_def failing_client_def)
qed

text \<open>
  Claim C8, as stated, fails. A client with \<open>max_retries = 0\<close> whose backend would raise
  at every attempt: \<open>translate\<close> makes no attempt and returns \<open>None\<close>, not the sentinel,
  and \<open>translate_document\<close> ends with the AttributeError that \<open>update_text\<close> raises on it.
\<close>

theorem no_attempts_no_sentinel:
  "max_retries no_retry_failing_client = 0 \<and>
   translate no_retry_failing_client (str ''Bonjour'') (str ''English'') st0
     = (None, \<lparr>attempts = [], requests = [(str ''Bonjour'', str ''English'')]\<rparr>) \<and>
   fst (translate_document (env_of plain_members) no_retry_failing_client (str ''English'')
          fs_stale st0) = Some AttributeError"
  by (simp add: no_retry_failing_client_def fs_defs doc_defs eval_defs strs)



end
